theory Spec2Isabelle
  imports Main "HOL-Library.Word" "HOL-Library.AList"
begin

section \<open>Basic types\<close>

text \<open>
  Go's \<open>error\<close> values are only ever built with \<open>fmt.Errorf\<close> and compared with
  \<open>nil\<close> in this program, so an error is its message. A \<open>byte\<close> is an 8-bit word,
  an \<open>int64\<close> a 64-bit word read as two's complement by \<open>sint\<close>. Ports are Go
  \<open>int\<close>s on which no arithmetic is ever done; they are integers.
\<close>

type_synonym error = string
type_synonym byte = "8 word"
type_synonym int64 = "64 word"
type_synonym int32 = "32 word"

subsection \<open>Formatting with \<open>%d\<close>\<close>

definition digit_char :: "int \<Rightarrow> char" where
  "digit_char d = char_of (48 + d)"

function dec_digits :: "int \<Rightarrow> string" where
  "dec_digits n = (if n < 10 then [digit_char n] else dec_digits (n div 10) @ [digit_char (n mod 10)])"
  by pat_completeness auto
termination
  by (relation "measure nat") auto

declare dec_digits.simps [simp del]

definition itoa :: "int \<Rightarrow> string" where
  "itoa i = (if i < 0 then CHR ''-'' # dec_digits (- i) else dec_digits i)"

section \<open>Data model (internal/forwarding/types.go)\<close>

text \<open>\<open>ForwardingType\<close> is a Go \<open>int\<close> with three named values (\<open>iota\<close>).\<close>

type_synonym ForwardingType = int

definition LocalForward :: ForwardingType where "LocalForward = 0"
definition RemoteForward :: ForwardingType where "RemoteForward = 1"
definition DynamicForward :: ForwardingType where "DynamicForward = 2"

definition ForwardingType_String :: "ForwardingType \<Rightarrow> string" where
  "ForwardingType_String ft =
     (if ft = LocalForward then ''Local''
      else if ft = RemoteForward then ''Remote''
      else if ft = DynamicForward then ''Dynamic''
      else ''Unknown'')"

record ForwardingRule =
  ID :: string
  Type :: ForwardingType
  LocalHost :: string
  LocalPort :: int
  RemoteHost :: string
  RemotePort :: int
  Description :: string

record ForwardingStats =
  BytesReceived :: int64
  BytesSent :: int64
  ConnectionCount :: int64
  ActiveConnections :: int64
  StartTime :: nat
  LastActivity :: nat
  ErrorCount :: int64
  LastError :: string

text \<open>
  A transport (\<open>*ssh.Client\<close>) is a handle: the number of the dial that created it.
  A listener is what \<open>net.Listen\<close> or \<open>sshClient.Listen\<close> returned.
\<close>

type_synonym client = nat

datatype listener = TCPListener string | SSHListener client string

text \<open>
  The \<open>done\<close> channel carries no values; all that matters is whether it has been
  closed. \<open>listener\<close> is \<open>nil\<close> until a starter sets it.
\<close>

record ForwardingSession =
  Rule :: ForwardingRule
  Stats :: ForwardingStats
  listener :: "listener option"
  done_closed :: bool
  active :: int32

definition IsActive :: "ForwardingSession \<Rightarrow> bool" where
  "IsActive fs = (active fs = 1)"

definition SetActive :: "bool \<Rightarrow> ForwardingSession \<Rightarrow> ForwardingSession" where
  "SetActive a fs = (if a then fs\<lparr>active := 1\<rparr> else fs\<lparr>active := 0\<rparr>)"

definition AddBytesReceived :: "nat \<Rightarrow> int64 \<Rightarrow> ForwardingSession \<Rightarrow> ForwardingSession" where
  "AddBytesReceived now bytes fs =
     fs\<lparr>Stats := (Stats fs)\<lparr>BytesReceived := BytesReceived (Stats fs) + bytes, LastActivity := now\<rparr>\<rparr>"

definition AddBytesSent :: "nat \<Rightarrow> int64 \<Rightarrow> ForwardingSession \<Rightarrow> ForwardingSession" where
  "AddBytesSent now bytes fs =
     fs\<lparr>Stats := (Stats fs)\<lparr>BytesSent := BytesSent (Stats fs) + bytes, LastActivity := now\<rparr>\<rparr>"

definition IncrementConnections :: "ForwardingSession \<Rightarrow> ForwardingSession" where
  "IncrementConnections fs =
     fs\<lparr>Stats := (Stats fs)\<lparr>ConnectionCount := ConnectionCount (Stats fs) + 1,
                              ActiveConnections := ActiveConnections (Stats fs) + 1\<rparr>\<rparr>"

definition DecrementActiveConnections :: "ForwardingSession \<Rightarrow> ForwardingSession" where
  "DecrementActiveConnections fs =
     fs\<lparr>Stats := (Stats fs)\<lparr>ActiveConnections := ActiveConnections (Stats fs) + (- 1)\<rparr>\<rparr>"

definition IncrementErrors :: "string \<Rightarrow> ForwardingSession \<Rightarrow> ForwardingSession" where
  "IncrementErrors err fs =
     fs\<lparr>Stats := (Stats fs)\<lparr>ErrorCount := ErrorCount (Stats fs) + 1, LastError := err\<rparr>\<rparr>"

section \<open>The forwarding manager\<close>

text \<open>\<open>config.SSHHost\<close> (internal/config/ssh.go).\<close>

record SSHHost =
  Name :: string
  Host :: string
  User :: string
  Port :: string
  Identity :: string

text \<open>
  The two \<open>sync.Map\<close>s are association lists with one entry per key:
  \<open>Load\<close> is \<open>map_of\<close>, \<open>Store\<close> is \<open>AList.update\<close>, \<open>Delete\<close> is
  \<open>AList.delete\<close> and \<open>Range\<close> walks the list.
\<close>

record ForwardingManager =
  sessions :: "(string \<times> ForwardingSession) list"
  sshClients :: "(string \<times> client) list"

definition NewManager :: ForwardingManager where
  "NewManager = \<lparr>sessions = [], sshClients = []\<rparr>"

text \<open>
  What the operating system and the network answer is not decided by the program. An
  \<open>env\<close> fixes these answers for one call: the clock, whether the keepalive request on
  a transport fails, whether a key file loads, whether the SSH dial succeeds, and
  whether a local or a remote listen succeeds. The \<open>world\<close> records what the program
  did to the outside: how many transports it has dialed successfully, and which
  transports and listeners it has closed.
\<close>

record env =
  now :: nat
  keepalive_err :: "client \<Rightarrow> error option"
  load_key_err :: "string \<Rightarrow> string \<Rightarrow> error option"
  ssh_dial_err :: "string \<Rightarrow> string \<Rightarrow> error option"
  net_listen_err :: "string \<Rightarrow> error option"
  ssh_listen_err :: "client \<Rightarrow> string \<Rightarrow> error option"

record world =
  clients_created :: nat
  clients_closed :: "client list"
  listeners_closed :: "listener list"

definition loadPrivateKey :: "env \<Rightarrow> string \<Rightarrow> string \<Rightarrow> error option" where
  "loadPrivateKey e keyPath keyPassword = load_key_err e keyPath keyPassword"

definition createSSHClient :: "env \<Rightarrow> SSHHost \<Rightarrow> string \<Rightarrow> world \<Rightarrow> (error + client) \<times> world" where
  "createSSHClient e host keyPassword w =
     (case (if Identity host \<noteq> [] then loadPrivateKey e (Identity host) keyPassword else None) of
        Some err \<Rightarrow> (Inl (''failed to load private key: '' @ err), w)
      | None \<Rightarrow>
         (case ssh_dial_err e (Host host @ '':'' @ Port host) (User host) of
            Some err \<Rightarrow> (Inl (''failed to connect to SSH server: '' @ err), w)
          | None \<Rightarrow> (Inr (clients_created w), w\<lparr>clients_created := Suc (clients_created w)\<rparr>)))"

definition clientKey :: "SSHHost \<Rightarrow> string" where
  "clientKey host = User host @ ''@'' @ Host host @ '':'' @ Port host"

definition getSSHClient ::
  "env \<Rightarrow> SSHHost \<Rightarrow> string \<Rightarrow> ForwardingManager \<times> world \<Rightarrow> (error + client) \<times> ForwardingManager \<times> world" where
  "getSSHClient e host keyPassword st =
     (let fm = fst st; w = snd st; key = clientKey host;
          create = (\<lambda>fm w.
            (case createSSHClient e host keyPassword w of
               (Inl err, w') \<Rightarrow> (Inl err, fm, w')
             | (Inr c, w') \<Rightarrow> (Inr c, fm\<lparr>sshClients := AList.update key c (sshClients fm)\<rparr>, w')))
      in case map_of (sshClients fm) key of
           Some c \<Rightarrow>
             (if keepalive_err e c = None then (Inr c, fm, w)
              else create (fm\<lparr>sshClients := AList.delete key (sshClients fm)\<rparr>)
                          (w\<lparr>clients_closed := c # clients_closed w\<rparr>))
         | None \<Rightarrow> create fm w)"

subsection \<open>The starters (internal/forwarding/session.go)\<close>

text \<open>
  A starter obtains the transport, opens its listener, stores it in the session and
  spawns the acceptor goroutine. The goroutine runs in the background and is not part of
  what the starter returns.
\<close>

definition startLocalForwarding ::
  "env \<Rightarrow> ForwardingSession \<Rightarrow> SSHHost \<Rightarrow> string \<Rightarrow> ForwardingManager \<times> world
     \<Rightarrow> error option \<times> ForwardingSession \<times> ForwardingManager \<times> world" where
  "startLocalForwarding e session host keyPassword st =
     (let rule = Rule session in
      case getSSHClient e host keyPassword st of
        (Inl err, st') \<Rightarrow> (Some (''failed to get SSH client: '' @ err), session, st')
      | (Inr sshClient, st') \<Rightarrow>
          (let localAddr = LocalHost rule @ '':'' @ itoa (LocalPort rule) in
           case net_listen_err e localAddr of
             Some err \<Rightarrow> (Some (''failed to listen on '' @ localAddr @ '': '' @ err), session, st')
           | None \<Rightarrow> (None, session\<lparr>listener := Some (TCPListener localAddr)\<rparr>, st')))"

definition startRemoteForwarding ::
  "env \<Rightarrow> ForwardingSession \<Rightarrow> SSHHost \<Rightarrow> string \<Rightarrow> ForwardingManager \<times> world
     \<Rightarrow> error option \<times> ForwardingSession \<times> ForwardingManager \<times> world" where
  "startRemoteForwarding e session host keyPassword st =
     (let rule = Rule session in
      case getSSHClient e host keyPassword st of
        (Inl err, st') \<Rightarrow> (Some (''failed to get SSH client: '' @ err), session, st')
      | (Inr sshClient, st') \<Rightarrow>
          (let remoteAddr = RemoteHost rule @ '':'' @ itoa (RemotePort rule) in
           case ssh_listen_err e sshClient remoteAddr of
             Some err \<Rightarrow> (Some (''failed to listen on remote '' @ remoteAddr @ '': '' @ err), session, st')
           | None \<Rightarrow> (None, session\<lparr>listener := Some (SSHListener sshClient remoteAddr)\<rparr>, st')))"

definition startDynamicForwarding ::
  "env \<Rightarrow> ForwardingSession \<Rightarrow> SSHHost \<Rightarrow> string \<Rightarrow> ForwardingManager \<times> world
     \<Rightarrow> error option \<times> ForwardingSession \<times> ForwardingManager \<times> world" where
  "startDynamicForwarding e session host keyPassword st =
     (let rule = Rule session in
      case getSSHClient e host keyPassword st of
        (Inl err, st') \<Rightarrow> (Some (''failed to get SSH client: '' @ err), session, st')
      | (Inr sshClient, st') \<Rightarrow>
          (let localAddr = LocalHost rule @ '':'' @ itoa (LocalPort rule) in
           case net_listen_err e localAddr of
             Some err \<Rightarrow> (Some (''failed to listen on '' @ localAddr @ '': '' @ err), session, st')
           | None \<Rightarrow> (None, session\<lparr>listener := Some (TCPListener localAddr)\<rparr>, st')))"

subsection \<open>Lifecycle operations\<close>

text \<open>
  The registry holds pointers in the source: what a starter or \<open>SetActive\<close> writes
  into the session is seen through the registry. Here the registry holds the session
  itself, and each such write is stored back under the session's key.
\<close>

text \<open>
  \<open>StartForwarding\<close> in three pieces: the session value it creates, the \<open>switch\<close>
  on the rule's type that picks the starter, and the function itself.
\<close>

definition newSession :: "env \<Rightarrow> ForwardingRule \<Rightarrow> ForwardingSession" where
  "newSession e rule =
     \<lparr>Rule = rule,
      Stats = \<lparr>BytesReceived = 0, BytesSent = 0, ConnectionCount = 0, ActiveConnections = 0,
               StartTime = now e, LastActivity = 0, ErrorCount = 0, LastError = []\<rparr>,
      listener = None, done_closed = False, active = 0\<rparr>"

definition startByType ::
  "env \<Rightarrow> ForwardingRule \<Rightarrow> ForwardingSession \<Rightarrow> SSHHost \<Rightarrow> string \<Rightarrow> ForwardingManager \<times> world
     \<Rightarrow> error option \<times> ForwardingSession \<times> ForwardingManager \<times> world" where
  "startByType e rule session host keyPassword st =
     (if Type rule = LocalForward then startLocalForwarding e session host keyPassword st
      else if Type rule = RemoteForward then startRemoteForwarding e session host keyPassword st
      else if Type rule = DynamicForward then startDynamicForwarding e session host keyPassword st
      else (Some (''unsupported forwarding type: '' @ ForwardingType_String (Type rule)),
            session, st))"

definition StartForwarding ::
  "env \<Rightarrow> ForwardingRule \<Rightarrow> SSHHost \<Rightarrow> string \<Rightarrow> ForwardingManager \<times> world
     \<Rightarrow> error option \<times> ForwardingManager \<times> world" where
  "StartForwarding e rule host keyPassword st =
     (let fm = fst st; w = snd st in
      if map_of (sessions fm) (ID rule) \<noteq> None
      then (Some (''forwarding session '' @ ID rule @ '' already exists''), fm, w)
      else
        (let session = newSession e rule;
             fm1 = fm\<lparr>sessions := AList.update (ID rule) session (sessions fm)\<rparr>
         in case startByType e rule session host keyPassword (fm1, w) of
              (Some err, session', fm2, w2) \<Rightarrow>
                (Some err, fm2\<lparr>sessions := AList.delete (ID rule) (sessions fm2)\<rparr>, w2)
            | (None, session', fm2, w2) \<Rightarrow>
                (None, fm2\<lparr>sessions := AList.update (ID rule) (SetActive True session') (sessions fm2)\<rparr>, w2)))"

text \<open>
  \<open>close\<close> on a channel that is already closed panics in Go; a call either returns
  its error value or panics.
\<close>

datatype 'a outcome = Returned 'a | Panicked string

definition StopForwarding ::
  "string \<Rightarrow> ForwardingManager \<times> world \<Rightarrow> (error option) outcome \<times> ForwardingManager \<times> world" where
  "StopForwarding sessionID st =
     (let fm = fst st; w = snd st in
      case map_of (sessions fm) sessionID of
        None \<Rightarrow> (Returned (Some (''session '' @ sessionID @ '' not found'')), fm, w)
      | Some session0 \<Rightarrow>
          (let session = SetActive False session0;
               fm1 = fm\<lparr>sessions := AList.update sessionID session (sessions fm)\<rparr>;
               w1 = (case listener session of
                       Some l \<Rightarrow> w\<lparr>listeners_closed := l # listeners_closed w\<rparr>
                     | None \<Rightarrow> w)
           in if done_closed session
              then (Panicked ''close of closed channel'', fm1, w1)
              else
                (let fm2 = fm1\<lparr>sessions := AList.update sessionID (session\<lparr>done_closed := True\<rparr>) (sessions fm1)\<rparr>
                 in (Returned None, fm2\<lparr>sessions := AList.delete sessionID (sessions fm2)\<rparr>, w1))))"

definition GetSession :: "string \<Rightarrow> ForwardingManager \<Rightarrow> ForwardingSession option" where
  "GetSession sessionID fm = map_of (sessions fm) sessionID"

definition GetAllSessions :: "ForwardingManager \<Rightarrow> ForwardingSession list" where
  "GetAllSessions fm = map snd (sessions fm)"

subsection \<open>Registry invariants\<close>

text \<open>
  Every entry of the registry is stored under its own rule's id, and no registered
  session has had its shutdown channel closed. Both hold for a new manager and are kept
  by \<open>StartForwarding\<close> and \<open>StopForwarding\<close>.
\<close>

definition registry_keyed :: "ForwardingManager \<Rightarrow> bool" where
  "registry_keyed fm = list_all (\<lambda>(k, s). ID (Rule s) = k) (sessions fm)"

definition registry_open :: "ForwardingManager \<Rightarrow> bool" where
  "registry_open fm = list_all (\<lambda>(k, s). \<not> done_closed s) (sessions fm)"

section \<open>Connections and the stream pump (internal/forwarding/session.go)\<close>

text \<open>
  A \<open>net.Conn\<close> as the engine sees it. \<open>incoming\<close> lists what the successive
  \<open>Read\<close> calls will find: the bytes that have arrived and the error reported with
  them, if any; a \<open>Read\<close> delivers at most as many bytes as its buffer holds and leaves
  the rest (and the error) to the next one. When nothing more is listed, the peer has
  closed and \<open>Read\<close> reports \<open>EOF\<close>. \<open>accepts\<close> lists what the successive \<open>Write\<close>
  calls will do: how many bytes of the slice the connection takes, and the error it
  reports; when nothing is listed a \<open>Write\<close> takes the whole slice. \<open>outgoing\<close> is the
  stream of bytes actually written to the connection. After \<open>Close\<close>, \<open>Read\<close> and
  \<open>Write\<close> fail and move no data.
\<close>

record conn =
  incoming :: "(byte list \<times> error option) list"
  accepts :: "(nat \<times> error option) list"
  outgoing :: "byte list"
  closed :: bool

definition conn_Read :: "nat \<Rightarrow> conn \<Rightarrow> (byte list \<times> error option) \<times> conn" where
  "conn_Read cap c =
     (if closed c then (([], Some ''use of closed network connection''), c)
      else
        (case incoming c of
           [] \<Rightarrow> (([], Some ''EOF''), c)
         | (bs, err) # rest \<Rightarrow>
             (if length bs \<le> cap then ((bs, err), c\<lparr>incoming := rest\<rparr>)
              else ((take cap bs, None), c\<lparr>incoming := (drop cap bs, err) # rest\<rparr>))))"

definition conn_Write :: "byte list \<Rightarrow> conn \<Rightarrow> (nat \<times> error option) \<times> conn" where
  "conn_Write p c =
     (if closed c then ((0, Some ''use of closed network connection''), c)
      else
        (case accepts c of
           [] \<Rightarrow> ((length p, None), c\<lparr>outgoing := outgoing c @ p\<rparr>)
         | (k, err) # rest \<Rightarrow>
             (let nw = min k (length p)
              in ((nw, err), c\<lparr>outgoing := outgoing c @ take nw p, accepts := rest\<rparr>))))"

definition conn_Close :: "conn \<Rightarrow> conn" where
  "conn_Close c = c\<lparr>closed := True\<rparr>"

subsection \<open>\<open>copyWithStats\<close>\<close>

text \<open>
  One pass through the body of the \<open>for\<close> loop of \<open>copyWithStats\<close>, on the
  destination, the source, the local \<open>written\<close> and the state the callback works on.
  The first component of the result is \<open>None\<close> when the loop goes round again and the
  returned error value (\<open>None\<close> for \<open>nil\<close>) when it returns.
\<close>

definition copy_iter ::
  "(int64 \<Rightarrow> 's \<Rightarrow> 's) \<Rightarrow> conn \<times> conn \<times> int64 \<times> 's
     \<Rightarrow> (error option) option \<times> conn \<times> conn \<times> int64 \<times> 's" where
  "copy_iter statsCallback st =
     (case st of (dst, src, written, s) \<Rightarrow>
        (case conn_Read (32 * 1024) src of ((data, er), src1) \<Rightarrow>
           (let nr = length data;
                wrote =
                  (if nr > 0 then
                     (case conn_Write data dst of ((nw, ew), dst1) \<Rightarrow>
                        (if ew \<noteq> None then Some ew
                         else if nr \<noteq> nw then Some (Some ''short write'')
                         else None,
                         dst1,
                         if nw > 0 then written + of_nat nw else written,
                         if nw > 0 then statsCallback (of_nat nw) s else s))
                   else (None, dst, written, s))
            in case wrote of (ret, dst1, written1, s1) \<Rightarrow>
                 (case ret of
                    Some r \<Rightarrow> (Some r, dst1, src1, written1, s1)
                  | None \<Rightarrow>
                      (case er of
                         Some e \<Rightarrow>
                           (if e \<noteq> ''EOF'' then (Some (Some e), dst1, src1, written1, s1)
                            else (Some None, dst1, src1, written1, s1))
                       | None \<Rightarrow> (None, dst1, src1, written1, s1))))))"

text \<open>
  The loop, run for at most \<open>k\<close> passes: the result is \<open>None\<close> while it has not
  returned.
\<close>

fun copyWithStats ::
  "nat \<Rightarrow> (int64 \<Rightarrow> 's \<Rightarrow> 's) \<Rightarrow> conn \<times> conn \<times> int64 \<times> 's
     \<Rightarrow> (error option) option \<times> conn \<times> conn \<times> int64 \<times> 's" where
  "copyWithStats 0 statsCallback st = (None, st)"
| "copyWithStats (Suc k) statsCallback st =
     (case copy_iter statsCallback st of
        (Some r, st') \<Rightarrow> (Some r, st')
      | (None, st') \<Rightarrow> copyWithStats k statsCallback st')"

subsection \<open>\<open>forwardData\<close>\<close>

text \<open>
  \<open>forwardData\<close> starts two goroutines, one copying \<open>conn1\<close> to \<open>conn2\<close> and counting
  into \<open>BytesSent\<close>, one copying \<open>conn2\<close> to \<open>conn1\<close> and counting into
  \<open>BytesReceived\<close>; each, when its copy returns an error while the session is active,
  records the error, and then signals \<open>done\<close>. The two run interleaved. A \<open>pump\<close> is
  the state they share and their own; an event lets one of them make one pass of its
  loop at a given clock reading, or is \<open>StopForwarding\<close> marking the session
  inactive meanwhile. The two goroutines touch different parts of the connections (one
  reads where the other writes) and different counters, so passes are taken as the
  unit of interleaving.
\<close>

record pump =
  conn1 :: conn
  conn2 :: conn
  session :: ForwardingSession
  sent_written :: int64
  sent_done :: bool
  received_written :: int64
  received_done :: bool

datatype pump_event = StepSent nat | StepReceived nat | Deactivate

definition new_pump :: "ForwardingSession \<Rightarrow> conn \<Rightarrow> conn \<Rightarrow> pump" where
  "new_pump s c1 c2 =
     \<lparr>conn1 = c1, conn2 = c2, session = s, sent_written = 0, sent_done = False,
      received_written = 0, received_done = False\<rparr>"

definition record_copy_error :: "string \<Rightarrow> int64 \<Rightarrow> (error option) option \<Rightarrow> ForwardingSession \<Rightarrow> ForwardingSession" where
  "record_copy_error what written ret s =
     (case ret of
        Some (Some err) \<Rightarrow>
          (if IsActive s
           then IncrementErrors (''Forward error ('' @ what @ '' '' @ itoa (sint written) @ '' bytes): '' @ err) s
           else s)
      | _ \<Rightarrow> s)"

fun pump_step :: "pump_event \<Rightarrow> pump \<Rightarrow> pump" where
  "pump_step (StepSent t) p =
     (if sent_done p then p
      else
        (case copy_iter (AddBytesSent t) (conn2 p, conn1 p, sent_written p, session p) of
           (ret, dst, src, written, s) \<Rightarrow>
             p\<lparr>conn2 := dst, conn1 := src, sent_written := written,
               session := record_copy_error ''sent'' written ret s, sent_done := (ret \<noteq> None)\<rparr>))"
| "pump_step (StepReceived t) p =
     (if received_done p then p
      else
        (case copy_iter (AddBytesReceived t) (conn1 p, conn2 p, received_written p, session p) of
           (ret, dst, src, written, s) \<Rightarrow>
             p\<lparr>conn1 := dst, conn2 := src, received_written := written,
               session := record_copy_error ''received'' written ret s, received_done := (ret \<noteq> None)\<rparr>))"
| "pump_step Deactivate p = p\<lparr>session := SetActive False (session p)\<rparr>"

definition pump_run :: "pump_event list \<Rightarrow> pump \<Rightarrow> pump" where
  "pump_run evs p = foldl (\<lambda>q ev. pump_step ev q) p evs"

text \<open>
  \<open>forwardData\<close> itself waits for the first \<open>done\<close> signal only. Given the events to
  come it returns the pump as it is when the first direction has finished, the events
  not yet consumed, and whether it has returned at all within the events given.
\<close>

fun forwardData :: "pump_event list \<Rightarrow> pump \<Rightarrow> pump \<times> pump_event list \<times> bool" where
  "forwardData [] p = (p, [], sent_done p \<or> received_done p)"
| "forwardData (ev # evs) p =
     (if sent_done p \<or> received_done p then (p, ev # evs, True)
      else forwardData evs (pump_step ev p))"

section \<open>The SOCKS5 negotiator and the connection handlers\<close>

text \<open>
  \<open>conn.Read(buf)\<close> overwrites the front of the buffer with what it delivers and
  leaves the rest as it was.
\<close>

definition read_into :: "byte list \<Rightarrow> byte list \<Rightarrow> byte list" where
  "read_into buf data = data @ drop (length data) buf"

definition bytes_string :: "byte list \<Rightarrow> string" where
  "bytes_string bs = map (\<lambda>b. char_of (unat b)) bs"

definition socks5Handshake :: "conn \<Rightarrow> (error + string) \<times> conn" where
  "socks5Handshake c =
     (let buf0 = replicate 256 (0 :: byte) in
      case conn_Read 256 c of
        ((data1, Some err), c1) \<Rightarrow> (Inl err, c1)
      | ((data1, None), c1) \<Rightarrow>
          (let n = length data1; buf1 = read_into buf0 data1 in
           if n < 3 \<or> buf1 ! 0 \<noteq> 0x05 then (Inl ''unsupported SOCKS version'', c1)
           else
             (let c2 = snd (conn_Write [0x05, 0x00] c1) in
              case conn_Read 256 c2 of
                ((data2, Some err), c3) \<Rightarrow> (Inl err, c3)
              | ((data2, None), c3) \<Rightarrow>
                  (let n = length data2; buf = read_into buf1 data2 in
                   if n < 7 \<or> buf ! 0 \<noteq> 0x05 \<or> buf ! 1 \<noteq> 0x01
                   then (Inl ''invalid SOCKS5 request'', c3)
                   else if buf ! 3 = 0x01 then
                     (if n < 10 then (Inl ''invalid IPv4 address'', c3)
                      else
                        (Inr (itoa (uint (buf ! 4)) @ ''.'' @ itoa (uint (buf ! 5)) @ ''.'' @
                              itoa (uint (buf ! 6)) @ ''.'' @ itoa (uint (buf ! 7)) @ '':'' @
                              itoa (push_bit 8 (uint (buf ! 8)) + uint (buf ! 9))), c3))
                   else if buf ! 3 = 0x03 then
                     (if n < 7 then (Inl ''invalid domain name'', c3)
                      else
                        (let domainLen = unat (buf ! 4) in
                         if n < 7 + domainLen then (Inl ''incomplete domain name'', c3)
                         else
                           (let domain = bytes_string (take domainLen (drop 5 buf));
                                port = push_bit 8 (uint (buf ! (5 + domainLen)))
                                         + uint (buf ! (6 + domainLen))
                            in (Inr (domain @ '':'' @ itoa port), c3))))
                   else (Inl ''unsupported address type'', c3)))))"

text \<open>
  What a connection handler leaves behind: the session, the accepted connection, the
  connection it dialed (if it got that far), and whether the handler has returned
  within the events given (it returns when \<open>forwardData\<close> does). The deferred calls
  run at the return: the connections are closed and the active count is taken down.
\<close>

record handled =
  h_session :: ForwardingSession
  h_accepted :: conn
  h_dialed :: "conn option"
  h_returned :: bool

definition pump_and_cleanup :: "pump_event list \<Rightarrow> ForwardingSession \<Rightarrow> conn \<Rightarrow> conn \<Rightarrow> bool \<Rightarrow> handled" where
  "pump_and_cleanup evs s accepted dialed accepted_is_conn1 =
     (case forwardData evs (if accepted_is_conn1 then new_pump s accepted dialed
                            else new_pump s dialed accepted) of
        (p, rest, returned) \<Rightarrow>
          (let a = (if accepted_is_conn1 then conn1 p else conn2 p);
               d = (if accepted_is_conn1 then conn2 p else conn1 p)
           in if returned
              then \<lparr>h_session = DecrementActiveConnections (session p), h_accepted = conn_Close a,
                    h_dialed = Some (conn_Close d), h_returned = True\<rparr>
              else \<lparr>h_session = session p, h_accepted = a, h_dialed = Some d, h_returned = False\<rparr>))"

definition handleLocalForwardConnection ::
  "(string \<Rightarrow> error + conn) \<Rightarrow> pump_event list \<Rightarrow> ForwardingSession \<Rightarrow> conn \<Rightarrow> string \<Rightarrow> int \<Rightarrow> handled" where
  "handleLocalForwardConnection sshDial evs session0 localConn remoteHost remotePort =
     (let session = IncrementConnections session0;
          remoteAddr = remoteHost @ '':'' @ itoa remotePort
      in case sshDial remoteAddr of
           Inl err \<Rightarrow>
             \<lparr>h_session = DecrementActiveConnections
                  (IncrementErrors (''Failed to connect to '' @ remoteAddr @ '': '' @ err) session),
              h_accepted = conn_Close localConn, h_dialed = None, h_returned = True\<rparr>
         | Inr remoteConn \<Rightarrow> pump_and_cleanup evs session localConn remoteConn True)"

definition handleRemoteForwardConnection ::
  "(string \<Rightarrow> error + conn) \<Rightarrow> pump_event list \<Rightarrow> ForwardingSession \<Rightarrow> conn \<Rightarrow> string \<Rightarrow> int \<Rightarrow> handled" where
  "handleRemoteForwardConnection netDial evs session0 remoteConn localHost localPort =
     (let session = IncrementConnections session0;
          localAddr = localHost @ '':'' @ itoa localPort
      in case netDial localAddr of
           Inl err \<Rightarrow>
             \<lparr>h_session = DecrementActiveConnections
                  (IncrementErrors (''Failed to connect to local '' @ localAddr @ '': '' @ err) session),
              h_accepted = conn_Close remoteConn, h_dialed = None, h_returned = True\<rparr>
         | Inr localConn \<Rightarrow> pump_and_cleanup evs session remoteConn localConn False)"

definition socks5_failure_reply :: "byte list" where
  "socks5_failure_reply = [0x05, 0x05, 0x00, 0x01, 0x00, 0x00, 0x00, 0x00, 0x00, 0x00]"

definition socks5_success_reply :: "byte list" where
  "socks5_success_reply = [0x05, 0x00, 0x00, 0x01, 0x00, 0x00, 0x00, 0x00, 0x00, 0x00]"

definition handleSOCKS5Connection ::
  "(string \<Rightarrow> error + conn) \<Rightarrow> pump_event list \<Rightarrow> ForwardingSession \<Rightarrow> conn \<Rightarrow> handled" where
  "handleSOCKS5Connection sshDial evs session0 localConn0 =
     (let session = IncrementConnections session0 in
      case socks5Handshake localConn0 of
        (Inl err, localConn) \<Rightarrow>
          \<lparr>h_session = DecrementActiveConnections
               (IncrementErrors (''SOCKS5 handshake failed: '' @ err) session),
           h_accepted = conn_Close localConn, h_dialed = None, h_returned = True\<rparr>
      | (Inr targetAddr, localConn) \<Rightarrow>
          (case sshDial targetAddr of
             Inl err \<Rightarrow>
               \<lparr>h_session = DecrementActiveConnections
                    (IncrementErrors (''Failed to connect to '' @ targetAddr @ '': '' @ err) session),
                h_accepted = conn_Close (snd (conn_Write socks5_failure_reply localConn)),
                h_dialed = None, h_returned = True\<rparr>
           | Inr remoteConn \<Rightarrow>
               pump_and_cleanup evs session (snd (conn_Write socks5_success_reply localConn))
                 remoteConn True))"

subsection \<open>SOCKS5 messages\<close>

text \<open>
  The client's messages as RFC 1928 lays them out: the greeting with its list of
  methods, and a CONNECT request for an IPv4 address, a domain name, or an IPv6
  address, with the port in network byte order.
\<close>

definition socks5_greeting :: "byte list \<Rightarrow> byte list" where
  "socks5_greeting methods = [0x05, of_nat (length methods)] @ methods"

definition port_bytes :: "nat \<Rightarrow> byte list" where
  "port_bytes port = [of_nat (port div 256), of_nat (port mod 256)]"

definition connect_ipv4 :: "byte \<Rightarrow> byte \<Rightarrow> byte \<Rightarrow> byte \<Rightarrow> nat \<Rightarrow> byte list" where
  "connect_ipv4 a b c d port = [0x05, 0x01, 0x00, 0x01, a, b, c, d] @ port_bytes port"

definition connect_domain :: "byte list \<Rightarrow> nat \<Rightarrow> byte list" where
  "connect_domain name port = [0x05, 0x01, 0x00, 0x03, of_nat (length name)] @ name @ port_bytes port"

definition connect_ipv6 :: "byte list \<Rightarrow> nat \<Rightarrow> byte list" where
  "connect_ipv6 addr port = [0x05, 0x01, 0x00, 0x04] @ addr @ port_bytes port"

definition client_conn :: "byte list list \<Rightarrow> conn" where
  "client_conn msgs = \<lparr>incoming = map (\<lambda>m. (m, None)) msgs, accepts = [], outgoing = [], closed = False\<rparr>"

definition example_com :: "byte list" where
  "example_com = map of_char ''example.com''"

section \<open>The statistics under concurrent handlers\<close>

text \<open>
  The statistics operations are sequences of atomic additions, so what many goroutines
  do to one session is a sequence of atomic steps, each by one goroutine.
  \<open>IncrementConnections\<close> is two steps; the others are one each (the plain writes of
  \<open>LastActivity\<close> and \<open>LastError\<close> that follow the addition are taken with it).
\<close>

datatype atomic_step =
    AddConnectionCount
  | AddActiveConnections
  | SubActiveConnections
  | AddSent nat int64
  | AddReceived nat int64
  | AddError string

fun apply_step :: "atomic_step \<Rightarrow> ForwardingSession \<Rightarrow> ForwardingSession" where
  "apply_step AddConnectionCount fs =
     fs\<lparr>Stats := (Stats fs)\<lparr>ConnectionCount := ConnectionCount (Stats fs) + 1\<rparr>\<rparr>"
| "apply_step AddActiveConnections fs =
     fs\<lparr>Stats := (Stats fs)\<lparr>ActiveConnections := ActiveConnections (Stats fs) + 1\<rparr>\<rparr>"
| "apply_step SubActiveConnections fs = DecrementActiveConnections fs"
| "apply_step (AddSent t n) fs = AddBytesSent t n fs"
| "apply_step (AddReceived t n) fs = AddBytesReceived t n fs"
| "apply_step (AddError msg) fs = IncrementErrors msg fs"

text \<open>
  What the code lets a connection handler and the goroutines it starts do, in order:
  \<open>IncrementConnections\<close> first (the total, then the active count); then, while the
  connection is pumped, byte counts as \<open>copyWithStats\<close> reports them (positive, at
  most the 32 KiB buffer) and errors; \<open>DecrementActiveConnections\<close> once, when the
  handler returns. The slower direction of the pump may still report bytes after
  that. Errors are also counted by the acceptor loop, which never does anything else.
\<close>

datatype phase = Idle | Counted | Active | Finished

fun next_phase :: "phase \<Rightarrow> atomic_step \<Rightarrow> phase option" where
  "next_phase p AddConnectionCount = (if p = Idle then Some Counted else None)"
| "next_phase p AddActiveConnections = (if p = Counted then Some Active else None)"
| "next_phase p SubActiveConnections = (if p = Active then Some Finished else None)"
| "next_phase p (AddSent t n) =
     (if (p = Active \<or> p = Finished) \<and> 0 < sint n \<and> sint n \<le> 32 * 1024 then Some p else None)"
| "next_phase p (AddReceived t n) =
     (if (p = Active \<or> p = Finished) \<and> 0 < sint n \<and> sint n \<le> 32 * 1024 then Some p else None)"
| "next_phase p (AddError msg) = Some p"

definition phase_of :: "(nat \<times> phase) list \<Rightarrow> nat \<Rightarrow> phase" where
  "phase_of ph h = (case map_of ph h of None \<Rightarrow> Idle | Some p \<Rightarrow> p)"

text \<open>
  A trace is a list of steps, each with the number of the handler that takes it. It is
  run from the handlers' phases and the session; the result is \<open>None\<close> when some
  handler steps out of the order above.
\<close>

fun run_trace ::
  "(nat \<times> atomic_step) list \<Rightarrow> (nat \<times> phase) list \<times> ForwardingSession
     \<Rightarrow> ((nat \<times> phase) list \<times> ForwardingSession) option" where
  "run_trace [] st = Some st"
| "run_trace ((h, a) # tr) (ph, fs) =
     (case next_phase (phase_of ph h) a of
        None \<Rightarrow> None
      | Some p \<Rightarrow> run_trace tr (AList.update h p ph, apply_step a fs))"

definition active_handlers :: "(nat \<times> phase) list \<Rightarrow> nat" where
  "active_handlers ph = length (filter (\<lambda>(h, p). p = Active) ph)"

text \<open>What a trace adds to each of the four counters.\<close>

fun sent_of :: "atomic_step \<Rightarrow> nat" where
  "sent_of (AddSent t n) = unat n"
| "sent_of _ = 0"

fun received_of :: "atomic_step \<Rightarrow> nat" where
  "received_of (AddReceived t n) = unat n"
| "received_of _ = 0"

fun connections_of :: "atomic_step \<Rightarrow> nat" where
  "connections_of AddConnectionCount = 1"
| "connections_of _ = 0"

fun errors_of :: "atomic_step \<Rightarrow> nat" where
  "errors_of (AddError msg) = 1"
| "errors_of _ = 0"

definition trace_total :: "(atomic_step \<Rightarrow> nat) \<Rightarrow> (nat \<times> atomic_step) list \<Rightarrow> nat" where
  "trace_total f tr = sum_list (map (\<lambda>(h, a). f a) tr)"

section \<open>The command line's rule parser\<close>

subsection \<open>Library functions: \<open>strings.Split\<close>, \<open>strings.ToUpper\<close>, \<open>strconv.Atoi\<close>\<close>

text \<open>
  \<open>strings.Split s sep\<close> with a one-character separator: the pieces between the
  separators, one more than there are separators (the empty string gives one empty piece).
\<close>

fun Split :: "char \<Rightarrow> string \<Rightarrow> string list" where
  "Split sep [] = [[]]"
| "Split sep (c # cs) =
     (if c = sep then [] # Split sep cs
      else (case Split sep cs of p # ps \<Rightarrow> (c # p) # ps | [] \<Rightarrow> [[c]]))"

text \<open>
  \<open>strings.ToUpper\<close> on the ASCII letters. On other characters Go maps by Unicode
  case tables; no such character is mapped to \<open>D\<close> or \<open>R\<close>, the only results the
  parser compares with, so they are left as they are here.
\<close>

definition upper_char :: "char \<Rightarrow> char" where
  "upper_char c =
     (if 97 \<le> (of_char c :: nat) \<and> (of_char c :: nat) \<le> 122
      then char_of ((of_char c :: nat) - 32) else c)"

definition ToUpper :: "string \<Rightarrow> string" where
  "ToUpper s = map upper_char s"

text \<open>
  \<open>strconv.Atoi\<close>: an optional sign, then one or more decimal digits and nothing else;
  the value has to fit Go's 64-bit \<open>int\<close>. The parser only tests the error against
  \<open>nil\<close>, so a failure is \<open>None\<close>.
\<close>

definition is_digit :: "char \<Rightarrow> bool" where
  "is_digit c = (48 \<le> (of_char c :: nat) \<and> (of_char c :: nat) \<le> 57)"

definition digit_val :: "char \<Rightarrow> int" where
  "digit_val c = (of_char c :: int) - 48"

definition dec_val :: "string \<Rightarrow> int" where
  "dec_val s = foldl (\<lambda>n ch. n * 10 + digit_val ch) 0 s"

definition Atoi :: "string \<Rightarrow> int option" where
  "Atoi s =
     (let digits = (if s \<noteq> [] \<and> (hd s = CHR ''-'' \<or> hd s = CHR ''+'') then tl s else s) in
      if digits = [] \<or> \<not> list_all is_digit digits then None
      else
        (let n = dec_val digits;
             v = (if hd s = CHR ''-'' then - n else n)
         in if v < - (2 ^ 63) \<or> 2 ^ 63 - 1 < v then None else Some v))"

subsection \<open>\<open>parseForwardingRule\<close>\<close>

definition parseForwardingRule :: "string \<Rightarrow> error + ForwardingRule" where
  "parseForwardingRule ruleStr =
     (let parts = Split CHR '':'' ruleStr;
          rule = \<lparr>ID = ''cli-'' @ itoa (int (length ruleStr)), Type = 0, LocalHost = [],
                  LocalPort = 0, RemoteHost = [], RemotePort = 0, Description = []\<rparr>
      in
      if length parts = 2 \<and> ToUpper (parts ! 0) = ''D'' then
        (case Atoi (parts ! 1) of
           None \<Rightarrow> Inl (''invalid port number: '' @ parts ! 1)
         | Some port \<Rightarrow>
             Inr (rule\<lparr>Type := DynamicForward, LocalHost := ''localhost'', LocalPort := port,
                       Description := ''SOCKS proxy on port '' @ itoa port\<rparr>))
      else if length parts = 4 \<and> ToUpper (parts ! 0) = ''R'' then
        (case Atoi (parts ! 1) of
           None \<Rightarrow> Inl (''invalid local port: '' @ parts ! 1)
         | Some localPort \<Rightarrow>
             (case Atoi (parts ! 3) of
                None \<Rightarrow> Inl (''invalid remote port: '' @ parts ! 3)
              | Some remotePort \<Rightarrow>
                  Inr (rule\<lparr>Type := RemoteForward, LocalHost := ''localhost'', LocalPort := localPort,
                            RemoteHost := parts ! 2, RemotePort := remotePort,
                            Description := ''Remote '' @ itoa localPort @ '' -> '' @ parts ! 2
                                             @ '':'' @ itoa remotePort\<rparr>)))
      else if length parts = 3 then
        (case Atoi (parts ! 0) of
           None \<Rightarrow> Inl (''invalid local port: '' @ parts ! 0)
         | Some localPort \<Rightarrow>
             (case Atoi (parts ! 2) of
                None \<Rightarrow> Inl (''invalid remote port: '' @ parts ! 2)
              | Some remotePort \<Rightarrow>
                  Inr (rule\<lparr>Type := LocalForward, LocalHost := ''localhost'', LocalPort := localPort,
                            RemoteHost := parts ! 1, RemotePort := remotePort,
                            Description := ''Local '' @ itoa localPort @ '' -> '' @ parts ! 1
                                             @ '':'' @ itoa remotePort\<rparr>)))
      else Inl ''invalid forwarding rule format. Use: [R:]local_port:remote_host:remote_port or D:port'')"

subsection \<open>The accepted encodings\<close>

text \<open>
  \<open>Join\<close> puts pieces together with a separator between them (\<open>strings.Join\<close>),
  to say which texts split into which pieces. The three rules are what the parser
  builds from the text and the parsed fields in its three successful branches.
\<close>

fun Join :: "char \<Rightarrow> string list \<Rightarrow> string" where
  "Join sep [] = []"
| "Join sep [p] = p"
| "Join sep (p # q # ps) = p @ sep # Join sep (q # ps)"

definition dynamic_rule :: "string \<Rightarrow> int \<Rightarrow> ForwardingRule" where
  "dynamic_rule s port =
     \<lparr>ID = ''cli-'' @ itoa (int (length s)), Type = DynamicForward, LocalHost = ''localhost'',
      LocalPort = port, RemoteHost = [], RemotePort = 0,
      Description = ''SOCKS proxy on port '' @ itoa port\<rparr>"

definition remote_rule :: "string \<Rightarrow> int \<Rightarrow> string \<Rightarrow> int \<Rightarrow> ForwardingRule" where
  "remote_rule s a h b =
     \<lparr>ID = ''cli-'' @ itoa (int (length s)), Type = RemoteForward, LocalHost = ''localhost'',
      LocalPort = a, RemoteHost = h, RemotePort = b,
      Description = ''Remote '' @ itoa a @ '' -> '' @ h @ '':'' @ itoa b\<rparr>"

definition local_rule :: "string \<Rightarrow> int \<Rightarrow> string \<Rightarrow> int \<Rightarrow> ForwardingRule" where
  "local_rule s a h b =
     \<lparr>ID = ''cli-'' @ itoa (int (length s)), Type = LocalForward, LocalHost = ''localhost'',
      LocalPort = a, RemoteHost = h, RemotePort = b,
      Description = ''Local '' @ itoa a @ '' -> '' @ h @ '':'' @ itoa b\<rparr>"

text \<open>
  The encodings as the specification words them: \<open>localPort:remoteHost:remotePort\<close>,
  \<open>R:localPort:remoteHost:remotePort\<close> and \<open>D:port\<close>, with the letters as written
  and every port a non-empty run of decimal digits.
\<close>

definition spec_port :: "string \<Rightarrow> bool" where
  "spec_port p = (p \<noteq> [] \<and> list_all is_digit p)"

definition spec_rule_text :: "string \<Rightarrow> bool" where
  "spec_rule_text s =
     (case Split CHR '':'' s of
        [lp, h, rp] \<Rightarrow> spec_port lp \<and> spec_port rp
      | [t, lp, h, rp] \<Rightarrow> t = ''R'' \<and> spec_port lp \<and> spec_port rp
      | [t, p] \<Rightarrow> t = ''D'' \<and> spec_port p
      | _ \<Rightarrow> False)"

section \<open>Example inputs\<close>

text \<open>Concrete values at which the theorems below are evaluated.\<close>

definition env_ok :: env where
  "env_ok = \<lparr>now = 100, keepalive_err = (\<lambda>c. None), load_key_err = (\<lambda>p k. None),
              ssh_dial_err = (\<lambda>a u. None), net_listen_err = (\<lambda>a. None),
              ssh_listen_err = (\<lambda>c a. None)\<rparr>"

definition env_port_busy :: env where
  "env_port_busy = env_ok\<lparr>net_listen_err := (\<lambda>a. Some ''bind: address already in use'')\<rparr>"

definition env_dead :: env where
  "env_dead = env_ok\<lparr>keepalive_err := (\<lambda>c. Some ''EOF'')\<rparr>"

definition world0 :: world where
  "world0 = \<lparr>clients_created = 0, clients_closed = [], listeners_closed = []\<rparr>"

definition host_web :: SSHHost where
  "host_web = \<lparr>Name = ''web'', Host = ''example.org'', User = ''alice'', Port = ''22'',
                Identity = ''/home/alice/.ssh/id_rsa''\<rparr>"

definition host_web2 :: SSHHost where
  "host_web2 = \<lparr>Name = ''web-alias'', Host = ''example.org'', User = ''alice'', Port = ''22'',
                 Identity = []\<rparr>"

definition rule_a :: ForwardingRule where
  "rule_a = \<lparr>ID = ''cli-17'', Type = LocalForward, LocalHost = ''localhost'', LocalPort = 8080,
              RemoteHost = ''localhost'', RemotePort = 80,
              Description = ''Local 8080 -> localhost:80''\<rparr>"

definition rule_b :: ForwardingRule where
  "rule_b = \<lparr>ID = ''cli-17'', Type = LocalForward, LocalHost = ''localhost'', LocalPort = 8081,
              RemoteHost = ''localhost'', RemotePort = 80,
              Description = ''Local 8081 -> localhost:80''\<rparr>"

definition rule_d :: ForwardingRule where
  "rule_d = \<lparr>ID = ''cli-6'', Type = DynamicForward, LocalHost = ''localhost'', LocalPort = 1080,
              RemoteHost = [], RemotePort = 0, Description = ''SOCKS proxy on port 1080''\<rparr>"

definition flaky_conn :: conn where
  "flaky_conn = \<lparr>incoming = [([0x0A], None)], accepts = [(2, Some ''broken pipe'')],
                  outgoing = [], closed = False\<rparr>"

definition pump0 :: pump where
  "pump0 = new_pump (SetActive True (newSession env_ok rule_a))
             (client_conn [[0x01, 0x02, 0x03], [0x04, 0x05]]) flaky_conn"

definition events0 :: "pump_event list" where
  "events0 = [StepReceived 1, StepSent 2, Deactivate, StepSent 3, StepReceived 4]"

definition session_full :: ForwardingSession where
  "session_full = (newSession env_ok rule_a)
     \<lparr>Stats := (Stats (newSession env_ok rule_a))\<lparr>BytesSent := 0x7FFFFFFFFFFFFFFF\<rparr>\<rparr>"

definition trace0 :: "(nat \<times> atomic_step) list" where
  "trace0 = [(1, AddConnectionCount), (2, AddConnectionCount), (1, AddActiveConnections),
             (1, AddSent 5 100), (0, AddError ''Accept error: closed''), (2, AddActiveConnections),
             (1, SubActiveConnections), (2, AddReceived 6 7), (1, AddReceived 7 3)]"

definition state_a :: "ForwardingManager \<times> world" where
  "state_a = snd (StartForwarding env_ok rule_a host_web [] (NewManager, world0))"

definition state_a_stopped :: "ForwardingManager \<times> world" where
  "state_a_stopped = snd (StopForwarding ''cli-17'' state_a)"

section \<open>Facts about the registry\<close>

lemma map_of_None_delete_update:
  "map_of al k = None \<Longrightarrow> AList.delete k (AList.update k v al) = al"
  by (simp add: AList.delete_update_same map_of_eq_None_iff)

lemma getSSHClient_sessions:
  "getSSHClient e host keyPassword (fm, w) = (r, fm', w') \<Longrightarrow> sessions fm' = sessions fm"
  by (auto simp: getSSHClient_def createSSHClient_def Let_def
           split: option.splits if_splits sum.splits prod.splits)

lemma startLocalForwarding_frame:
  "startLocalForwarding e s host keyPassword (fm, w) = (r, s', fm', w') \<Longrightarrow>
     sessions fm' = sessions fm \<and> Rule s' = Rule s \<and> done_closed s' = done_closed s"
  by (auto simp: startLocalForwarding_def Let_def dest: getSSHClient_sessions
           split: option.splits sum.splits prod.splits)

lemma startRemoteForwarding_frame:
  "startRemoteForwarding e s host keyPassword (fm, w) = (r, s', fm', w') \<Longrightarrow>
     sessions fm' = sessions fm \<and> Rule s' = Rule s \<and> done_closed s' = done_closed s"
  by (auto simp: startRemoteForwarding_def Let_def dest: getSSHClient_sessions
           split: option.splits sum.splits prod.splits)

lemma startDynamicForwarding_frame:
  "startDynamicForwarding e s host keyPassword (fm, w) = (r, s', fm', w') \<Longrightarrow>
     sessions fm' = sessions fm \<and> Rule s' = Rule s \<and> done_closed s' = done_closed s"
  by (auto simp: startDynamicForwarding_def Let_def dest: getSSHClient_sessions
           split: option.splits sum.splits prod.splits)

lemma startByType_frame:
  "startByType e rule s host keyPassword (fm, w) = (r, s', fm', w') \<Longrightarrow>
     sessions fm' = sessions fm \<and> Rule s' = Rule s \<and> done_closed s' = done_closed s"
  unfolding startByType_def
  by (auto split: if_splits dest: startLocalForwarding_frame startRemoteForwarding_frame
                                  startDynamicForwarding_frame)

text \<open>
  What \<open>StartForwarding\<close> does to the registry, case by case: nothing when the id is
  registered or the starter fails, one new entry under the rule's id otherwise.
\<close>

lemma StartForwarding_fresh:
  assumes "map_of (sessions fm) (ID rule) = None"
    and "startByType e rule (newSession e rule) host keyPassword
           (fm\<lparr>sessions := AList.update (ID rule) (newSession e rule) (sessions fm)\<rparr>, w)
         = (r, s', fm2, w2)"
  shows "StartForwarding e rule host keyPassword (fm, w) =
           (case r of
              Some err \<Rightarrow> (Some err, fm2\<lparr>sessions := AList.delete (ID rule) (sessions fm2)\<rparr>, w2)
            | None \<Rightarrow> (None, fm2\<lparr>sessions := AList.update (ID rule) (SetActive True s') (sessions fm2)\<rparr>, w2))"
  using assms by (cases r) (simp_all add: StartForwarding_def Let_def)

lemma StartForwarding_sessions:
  assumes "StartForwarding e rule host keyPassword (fm, w) = (r, fm', w')"
  shows "(r \<noteq> None \<longrightarrow> sessions fm' = sessions fm) \<and>
         (r = None \<longrightarrow> map_of (sessions fm) (ID rule) = None \<and>
            (\<exists>s. sessions fm' = AList.update (ID rule) s (sessions fm) \<and> Rule s = rule \<and>
                 \<not> done_closed s \<and> IsActive s))"
proof (cases "map_of (sessions fm) (ID rule)")
  case (Some s0)
  with assms show ?thesis by (auto simp: StartForwarding_def)
next
  case None
  let ?fm1 = "fm\<lparr>sessions := AList.update (ID rule) (newSession e rule) (sessions fm)\<rparr>"
  obtain r0 s' fm2 w2 where started:
    "startByType e rule (newSession e rule) host keyPassword (?fm1, w) = (r0, s', fm2, w2)"
    by (metis prod_cases4)
  from startByType_frame [OF started]
  have frame: "sessions fm2 = AList.update (ID rule) (newSession e rule) (sessions fm)"
    "Rule s' = rule" "\<not> done_closed s'"
    by (simp_all add: newSession_def)
  show ?thesis
  proof (cases r0)
    case (Some err)
    with assms StartForwarding_fresh [OF None started] frame None
    have "r = Some err" "sessions fm' = sessions fm"
      by (auto simp: map_of_None_delete_update)
    then show ?thesis by simp
  next
    case r0: None
    with assms StartForwarding_fresh [OF None started] frame
    have "r = None"
      and "sessions fm' = AList.update (ID rule) (SetActive True s') (sessions fm)"
      by (auto simp: AList.update_conv' intro: map_of_eq_None_iff)
    with None frame show ?thesis
      by (auto simp: SetActive_def IsActive_def)
  qed
qed

section \<open>Starting a rule whose id is registered\<close>

text \<open>
  C1. When the rule's id is already in the registry, \<open>StartForwarding\<close> returns the
  error "forwarding session <id> already exists" and neither the manager (so the
  registered session, its statistics included) nor the outside world is changed.
\<close>

theorem StartForwarding_already_exists:
  assumes "map_of (sessions fm) (ID rule) = Some s"
  shows "StartForwarding e rule host keyPassword (fm, w) =
           (Some (''forwarding session '' @ ID rule @ '' already exists''), fm, w)"
  using assms by (simp add: StartForwarding_def)

theorem StartForwarding_already_exists_witness:
  "StartForwarding env_ok rule_b host_web [] state_a =
     (Some ''forwarding session cli-17 already exists'', state_a)"
proof -
  have "map_of (sessions (fst state_a)) (ID rule_b) \<noteq> None" by code_simp
  then obtain s where s: "map_of (sessions (fst state_a)) (ID rule_b) = Some s" by blast
  from StartForwarding_already_exists [OF s, of env_ok host_web "[]" "snd state_a"]
  show ?thesis by (simp add: rule_b_def)
qed

section \<open>A failed start leaves no registration\<close>

text \<open>
  C2. Whenever \<open>StartForwarding\<close> returns an error, the registry after the call is the
  registry before it. For an id that was not registered the only errors are the
  starter's (and the unsupported type), so the entry stored before the starter ran has
  been deleted again; in particular the id is not registered afterwards.
\<close>

theorem StartForwarding_failure_rolls_back:
  assumes "StartForwarding e rule host keyPassword (fm, w) = (Some err, fm', w')"
  shows "sessions fm' = sessions fm \<and>
         (GetSession (ID rule) fm = None \<longrightarrow> GetSession (ID rule) fm' = None)"
  using StartForwarding_sessions [OF assms] by (simp add: GetSession_def)

theorem StartForwarding_failure_rolls_back_witness:
  "StartForwarding env_port_busy rule_a host_web [] (NewManager, world0) =
     (Some ''failed to listen on localhost:8080: bind: address already in use'',
      NewManager\<lparr>sshClients := [(''alice@example.org:22'', 0)]\<rparr>, world0\<lparr>clients_created := 1\<rparr>)
   \<and> sessions (NewManager\<lparr>sshClients := [(''alice@example.org:22'', 0)]\<rparr>) = sessions NewManager
   \<and> GetSession (ID rule_a) NewManager = None
   \<and> GetSession (ID rule_a) (NewManager\<lparr>sshClients := [(''alice@example.org:22'', 0)]\<rparr>) = None"
proof -
  have run: "StartForwarding env_port_busy rule_a host_web [] (NewManager, world0) =
     (Some ''failed to listen on localhost:8080: bind: address already in use'',
      NewManager\<lparr>sshClients := [(''alice@example.org:22'', 0)]\<rparr>, world0\<lparr>clients_created := 1\<rparr>)"
    by code_simp
  have "GetSession (ID rule_a) NewManager = None" by code_simp
  with run StartForwarding_failure_rolls_back [OF run] show ?thesis by simp
qed

section \<open>The registry's invariants\<close>

lemma list_all_update:
  "list_all (\<lambda>(k, s). P k s) al \<Longrightarrow> P k v \<Longrightarrow> list_all (\<lambda>(k, s). P k s) (AList.update k v al)"
  by (induction al) (auto)

lemma list_all_delete:
  "list_all (\<lambda>(k, s). P k s) al \<Longrightarrow> list_all (\<lambda>(k, s). P k s) (AList.delete k al)"
  by (induction al) (auto)

lemma registered_open:
  "registry_open fm \<Longrightarrow> map_of (sessions fm) k = Some s \<Longrightarrow> \<not> done_closed s"
  by (auto simp: registry_open_def list_all_iff dest!: map_of_SomeD)

lemma registry_invariants_NewManager: "registry_keyed NewManager \<and> registry_open NewManager"
  by (simp add: registry_keyed_def registry_open_def NewManager_def)

lemma registry_invariants_StartForwarding:
  assumes "StartForwarding e rule host keyPassword (fm, w) = (r, fm', w')"
    and "registry_keyed fm" and "registry_open fm"
  shows "registry_keyed fm' \<and> registry_open fm'"
proof (cases r)
  case None
  with StartForwarding_sessions [OF assms(1)] obtain s where
    "sessions fm' = AList.update (ID rule) s (sessions fm)" "Rule s = rule" "\<not> done_closed s"
    by auto
  with assms(2,3) show ?thesis
    unfolding registry_keyed_def registry_open_def
    by (simp add: list_all_update [where P = "\<lambda>k s. ID (Rule s) = k"]
                  list_all_update [where P = "\<lambda>k s. \<not> done_closed s"])
next
  case (Some err)
  with StartForwarding_sessions [OF assms(1)] assms(2,3) show ?thesis
    by (simp add: registry_keyed_def registry_open_def)
qed

text \<open>What \<open>StopForwarding\<close> does to the registry.\<close>

lemma StopForwarding_absent:
  "map_of (sessions fm) sid = None \<Longrightarrow>
     StopForwarding sid (fm, w) = (Returned (Some (''session '' @ sid @ '' not found'')), fm, w)"
  by (simp add: StopForwarding_def)

lemma StopForwarding_registered:
  assumes "map_of (sessions fm) sid = Some s" and "\<not> done_closed s"
  shows "fst (StopForwarding sid (fm, w)) = Returned None \<and>
         sessions (fst (snd (StopForwarding sid (fm, w)))) = AList.delete sid (sessions fm)"
  using assms
  by (simp add: StopForwarding_def Let_def SetActive_def AList.delete_update_same
           split: option.splits)

lemma StopForwarding_no_panic:
  assumes "registry_open fm"
  shows "fst (StopForwarding sid (fm, w)) \<noteq> Panicked msg"
proof (cases "map_of (sessions fm) sid")
  case None
  then show ?thesis by (simp add: StopForwarding_absent)
next
  case (Some s)
  with assms have "\<not> done_closed s" by (rule registered_open)
  with Some show ?thesis by (simp add: StopForwarding_registered)
qed

lemma registry_invariants_StopForwarding:
  assumes "registry_keyed fm" and "registry_open fm"
  shows "registry_keyed (fst (snd (StopForwarding sid (fm, w)))) \<and>
         registry_open (fst (snd (StopForwarding sid (fm, w))))"
proof (cases "map_of (sessions fm) sid")
  case None
  with assms show ?thesis by (simp add: StopForwarding_absent)
next
  case (Some s)
  with assms(2) have "\<not> done_closed s" by (rule registered_open)
  with Some assms show ?thesis
    unfolding registry_keyed_def registry_open_def
    by (simp add: StopForwarding_registered
                  list_all_delete [where P = "\<lambda>k s. ID (Rule s) = k"]
                  list_all_delete [where P = "\<lambda>k s. \<not> done_closed s"])
qed

section \<open>Start, then stop\<close>

text \<open>
  C3. After a successful \<open>StartForwarding\<close> of a rule, \<open>StopForwarding\<close> of the rule's
  id returns without error and leaves the registry as it was before the start, where
  the id was not registered: \<open>GetSession\<close> finds nothing under the id, and no session
  returned by \<open>GetAllSessions\<close> carries it. The last part rests on the registry's
  invariant that each session is stored under its own rule's id, which holds in every
  state the manager reaches (\<open>registry_invariants_NewManager\<close>,
  \<open>registry_invariants_StartForwarding\<close>, \<open>registry_invariants_StopForwarding\<close>).
\<close>

theorem Start_then_Stop_leaves_id_absent:
  assumes start: "StartForwarding e rule host keyPassword (fm, w) = (None, fm1, w1)"
    and keyed: "registry_keyed fm"
  shows "fst (StopForwarding (ID rule) (fm1, w1)) = Returned None \<and>
         GetSession (ID rule) (fst (snd (StopForwarding (ID rule) (fm1, w1)))) = None \<and>
         (\<forall>s \<in> set (GetAllSessions (fst (snd (StopForwarding (ID rule) (fm1, w1))))).
            ID (Rule s) \<noteq> ID rule)"
proof -
  let ?fm2 = "fst (snd (StopForwarding (ID rule) (fm1, w1)))"
  from StartForwarding_sessions [OF start] obtain s where
    fresh: "map_of (sessions fm) (ID rule) = None" and
    s: "sessions fm1 = AList.update (ID rule) s (sessions fm)" "\<not> done_closed s"
    by auto
  from s have "map_of (sessions fm1) (ID rule) = Some s"
    by (simp add: AList.update_conv')
  from StopForwarding_registered [OF this s(2), of w1]
  have ret: "fst (StopForwarding (ID rule) (fm1, w1)) = Returned None"
    and "sessions ?fm2 = AList.delete (ID rule) (sessions fm1)" by auto
  with s fresh have same: "sessions ?fm2 = sessions fm"
    by (simp add: map_of_None_delete_update)
  have "ID (Rule x) \<noteq> ID rule" if "x \<in> set (GetAllSessions ?fm2)" for x
  proof
    assume eq: "ID (Rule x) = ID rule"
    from that same obtain k where in_reg: "(k, x) \<in> set (sessions fm)"
      by (auto simp: GetAllSessions_def)
    with keyed have "ID (Rule x) = k"
      by (auto simp: registry_keyed_def list_all_iff)
    with in_reg eq have "ID rule \<in> fst ` set (sessions fm)" by force
    with fresh show False by (simp add: map_of_eq_None_iff)
  qed
  with ret same fresh show ?thesis by (simp add: GetSession_def)
qed

theorem Start_then_Stop_leaves_id_absent_witness:
  "StartForwarding env_ok rule_a host_web [] (NewManager, world0) = (None, state_a) \<and>
   registry_keyed NewManager \<and>
   fst (StopForwarding (ID rule_a) state_a) = Returned None \<and>
   GetSession (ID rule_a) (fst state_a_stopped) = None \<and>
   GetAllSessions (fst state_a_stopped) = []"
proof -
  have start: "StartForwarding env_ok rule_a host_web [] (NewManager, world0)
                 = (None, fst state_a, snd state_a)"
    by code_simp
  have keyed: "registry_keyed NewManager" by code_simp
  have "GetAllSessions (fst state_a_stopped) = []" by code_simp
  with Start_then_Stop_leaves_id_absent [OF start keyed] start keyed show ?thesis
    by (simp add: state_a_stopped_def rule_a_def)
qed

section \<open>Stopping twice\<close>

text \<open>
  C6. Once \<open>StopForwarding\<close> has returned without error, the id is no longer in the
  registry, so a second call for the same id takes the first branch: it returns the
  ordinary error "session <id> not found" and changes nothing. It does not reach the
  \<open>close\<close> of the shutdown channel, and it does not panic.
\<close>

theorem StopForwarding_twice_not_found:
  assumes "StopForwarding sid (fm, w) = (Returned None, fm', w')"
  shows "StopForwarding sid (fm', w') =
           (Returned (Some (''session '' @ sid @ '' not found'')), fm', w')"
proof -
  from assms have "sessions fm' = AList.delete sid (sessions fm')"
    by (auto simp: StopForwarding_def Let_def AList.delete_idem
             split: option.splits if_splits)
  then have "map_of (sessions fm') sid = None"
    by (metis AList.delete_notin_dom map_of_eq_None_iff)
  then show ?thesis by (rule StopForwarding_absent)
qed

theorem StopForwarding_twice_not_found_witness:
  "StopForwarding ''cli-17'' state_a = (Returned None, state_a_stopped) \<and>
   StopForwarding ''cli-17'' state_a_stopped =
     (Returned (Some ''session cli-17 not found''), state_a_stopped)"
proof -
  have first: "StopForwarding ''cli-17'' (fst state_a, snd state_a)
                 = (Returned None, fst state_a_stopped, snd state_a_stopped)"
    by code_simp
  from StopForwarding_twice_not_found [OF first] first show ?thesis by simp
qed

theorem StopForwarding_twice_counterexample:
  "fst (StopForwarding ''cli-17'' state_a) = Returned None \<and>
   fst (StopForwarding ''cli-17'' state_a_stopped) = Returned (Some ''session cli-17 not found'')"
  by code_simp

section \<open>The transport pool\<close>

lemma createSSHClient_cases:
  "createSSHClient e host pw w = (r, w') \<Longrightarrow>
     (\<exists>err. r = Inl err \<and> w' = w) \<or>
     (r = Inr (clients_created w) \<and> w' = w\<lparr>clients_created := Suc (clients_created w)\<rparr>)"
  by (auto simp: createSSHClient_def split: option.splits if_splits)

lemma getSSHClient_pooled:
  "getSSHClient e host keyPassword (fm, w) = (Inr c, fm', w') \<Longrightarrow>
     map_of (sshClients fm') (clientKey host) = Some c"
  apply (cases "map_of (sshClients fm) (clientKey host)")
   apply (cases "createSSHClient e host keyPassword w")
   apply (auto simp: getSSHClient_def Let_def AList.update_conv' split: sum.splits)[1]
  subgoal for c0
    apply (cases "keepalive_err e c0")
     apply (simp add: getSSHClient_def)
    apply (cases "createSSHClient e host keyPassword (w\<lparr>clients_closed := c0 # clients_closed w\<rparr>)")
    apply (auto simp: getSSHClient_def Let_def AList.update_conv' split: sum.splits)
    done
  done

lemma getSSHClient_reuse:
  "map_of (sshClients fm) (clientKey host) = Some c \<Longrightarrow> keepalive_err e c = None \<Longrightarrow>
     getSSHClient e host keyPassword (fm, w) = (Inr c, fm, w)"
  by (simp add: getSSHClient_def)

lemma getSSHClient_stale:
  assumes "map_of (sshClients fm) (clientKey host) = Some c" and "keepalive_err e c \<noteq> None"
    and "createSSHClient e host pw (w\<lparr>clients_closed := c # clients_closed w\<rparr>) = (r, w1)"
  shows "getSSHClient e host pw (fm, w) =
           (case r of
              Inl err \<Rightarrow> (Inl err, fm\<lparr>sshClients := AList.delete (clientKey host) (sshClients fm)\<rparr>, w1)
            | Inr c' \<Rightarrow> (Inr c', fm\<lparr>sshClients := AList.update (clientKey host) c'
                                      (AList.delete (clientKey host) (sshClients fm))\<rparr>, w1))"
  using assms by (cases r) (auto simp: getSSHClient_def Let_def)

lemma getSSHClient_evicts:
  assumes pooled: "map_of (sshClients fm) (clientKey host) = Some c"
    and dead: "keepalive_err e c \<noteq> None"
    and run: "getSSHClient e host pw (fm, w) = (r, fm', w')"
  shows "clients_closed w' = c # clients_closed w \<and>
          (\<forall>c'. r = Inr c' \<longrightarrow>
             c' = clients_created w \<and> clients_created w' = Suc (clients_created w) \<and>
             map_of (sshClients fm') (clientKey host) = Some c' \<and>
             (c < clients_created w \<longrightarrow> c' \<noteq> c)) \<and>
          (\<forall>err. r = Inl err \<longrightarrow>
             clients_created w' = clients_created w \<and>
             map_of (sshClients fm') (clientKey host) = None)"
proof -
  let ?w = "w\<lparr>clients_closed := c # clients_closed w\<rparr>"
  obtain r1 w1 where create: "createSSHClient e host pw ?w = (r1, w1)"
    by (cases "createSSHClient e host pw ?w")
  from createSSHClient_cases [OF create] show ?thesis
  proof
    assume "\<exists>err. r1 = Inl err \<and> w1 = ?w"
    then obtain err where "r1 = Inl err" "w1 = ?w" by blast
    with getSSHClient_stale [OF pooled dead create] run show ?thesis
      by (auto simp: AList.delete_conv')
  next
    assume "r1 = Inr (clients_created ?w) \<and> w1 = ?w\<lparr>clients_created := Suc (clients_created ?w)\<rparr>"
    with getSSHClient_stale [OF pooled dead create] run show ?thesis
      by (auto simp: AList.update_conv')
  qed
qed

lemma starters_pooled:
  assumes "startLocalForwarding e s host pw (fm, w) = (None, s', fm', w') \<or>
           startRemoteForwarding e s host pw (fm, w) = (None, s', fm', w') \<or>
           startDynamicForwarding e s host pw (fm, w) = (None, s', fm', w')"
  shows "\<exists>c. map_of (sshClients fm') (clientKey host) = Some c"
proof -
  obtain r fm1 w1 where g: "getSSHClient e host pw (fm, w) = (r, fm1, w1)"
    by (cases "getSSHClient e host pw (fm, w)")
  show ?thesis
  proof (cases r)
    case (Inl err)
    with g assms show ?thesis
      by (simp add: startLocalForwarding_def startRemoteForwarding_def startDynamicForwarding_def)
  next
    case (Inr c)
    with g have "map_of (sshClients fm1) (clientKey host) = Some c"
      by (simp add: getSSHClient_pooled)
    moreover from g Inr assms have "fm' = fm1"
      by (auto simp: startLocalForwarding_def startRemoteForwarding_def startDynamicForwarding_def
                     Let_def split: option.splits)
    ultimately show ?thesis by blast
  qed
qed

lemma startByType_pooled:
  assumes "startByType e rule s host pw (fm, w) = (None, s', fm', w')"
  shows "\<exists>c. map_of (sshClients fm') (clientKey host) = Some c"
  using assms starters_pooled [of e s host pw fm w s' fm' w']
  by (auto simp: startByType_def split: if_splits)

lemma starters_reuse:
  assumes "map_of (sshClients fm) (clientKey host) = Some c" and "keepalive_err e c = None"
    and "startLocalForwarding e s host pw (fm, w) = (r, s', fm', w') \<or>
         startRemoteForwarding e s host pw (fm, w) = (r, s', fm', w') \<or>
         startDynamicForwarding e s host pw (fm, w) = (r, s', fm', w')"
  shows "fm' = fm \<and> w' = w"
  using assms(3) getSSHClient_reuse [OF assms(1,2), of pw w]
  by (auto simp: startLocalForwarding_def startRemoteForwarding_def startDynamicForwarding_def
                 Let_def split: option.splits)

lemma startByType_reuse:
  assumes "map_of (sshClients fm) (clientKey host) = Some c" and "keepalive_err e c = None"
    and "startByType e rule s host pw (fm, w) = (r, s', fm', w')"
  shows "fm' = fm \<and> w' = w"
  using assms(3) starters_reuse [OF assms(1,2), of s pw w r s' fm' w']
  by (auto simp: startByType_def split: if_splits)

lemma StartForwarding_pooled:
  assumes "StartForwarding e rule host pw (fm, w) = (None, fm', w')"
  shows "\<exists>c. map_of (sshClients fm') (clientKey host) = Some c"
proof -
  let ?fm1 = "fm\<lparr>sessions := AList.update (ID rule) (newSession e rule) (sessions fm)\<rparr>"
  from assms have fresh: "map_of (sessions fm) (ID rule) = None"
    by (auto simp: StartForwarding_def split: if_splits)
  obtain r0 s' fm2 w2 where started:
    "startByType e rule (newSession e rule) host pw (?fm1, w) = (r0, s', fm2, w2)"
    by (metis prod_cases4)
  from assms StartForwarding_fresh [OF fresh started]
  have "r0 = None" and "sshClients fm' = sshClients fm2"
    by (auto split: option.splits)
  with startByType_pooled started show ?thesis by metis
qed

lemma StartForwarding_reuse:
  assumes pooled: "map_of (sshClients fm) (clientKey host) = Some c"
    and alive: "keepalive_err e c = None"
    and run: "StartForwarding e rule host pw (fm, w) = (r, fm', w')"
  shows "sshClients fm' = sshClients fm \<and> w' = w"
proof (cases "map_of (sessions fm) (ID rule)")
  case (Some s)
  with run show ?thesis by (auto simp: StartForwarding_def)
next
  case None
  let ?fm1 = "fm\<lparr>sessions := AList.update (ID rule) (newSession e rule) (sessions fm)\<rparr>"
  obtain r0 s' fm2 w2 where started:
    "startByType e rule (newSession e rule) host pw (?fm1, w) = (r0, s', fm2, w2)"
    by (metis prod_cases4)
  have pooled1: "map_of (sshClients ?fm1) (clientKey host) = Some c" using pooled by simp
  from startByType_reuse [OF pooled1 alive started] have "fm2 = ?fm1" "w2 = w" by simp_all
  with run StartForwarding_fresh [OF None started] show ?thesis
    by (auto split: option.splits)
qed

text \<open>
  C7. The pool's key is \<open>user@host:port\<close>. (a) After a session has been started on a
  host, starting another rule on a host record with the same user, host and port,
  while the pooled transport answers the keepalive probe, changes neither the pool nor
  the world: no transport is dialed, none is closed, and the count of transports
  created stays what it was. At the level of \<open>getSSHClient\<close>: the second call returns
  the very transport the first call returned. (b) When the pooled transport fails the
  probe, it is removed from the pool and closed, and a new transport is dialed: if the
  dial succeeds the new transport (the next one created, so not the stale one) is
  stored under the key and returned, and the count of created transports goes up by
  one; if it fails the error is returned and the key stays without an entry.
\<close>

theorem transport_pool_reuse_and_eviction:
  "(User h2 = User h1 \<and> Host h2 = Host h1 \<and> Port h2 = Port h1 \<longrightarrow>
      clientKey h2 = User h1 @ ''@'' @ Host h1 @ '':'' @ Port h1 \<and>
      (getSSHClient e1 h1 pw1 (fm0, w0) = (Inr c, fm, w) \<and> keepalive_err e c = None
         \<longrightarrow> getSSHClient e h2 pw2 (fm, w) = (Inr c, fm, w)) \<and>
      (StartForwarding e1 rule1 h1 pw1 (fm0, w0) = (None, fm, w) \<and>
       (\<forall>c. map_of (sshClients fm) (clientKey h1) = Some c \<longrightarrow> keepalive_err e c = None) \<and>
       StartForwarding e rule2 h2 pw2 (fm, w) = (r2, fm2, w2)
         \<longrightarrow> sshClients fm2 = sshClients fm \<and> w2 = w))
   \<and>
   (map_of (sshClients fm) (clientKey host) = Some c \<and> keepalive_err e c \<noteq> None \<and>
      getSSHClient e host pw (fm, w) = (r, fm', w')
      \<longrightarrow> clients_closed w' = c # clients_closed w \<and>
          (\<forall>c'. r = Inr c' \<longrightarrow>
             c' = clients_created w \<and> clients_created w' = Suc (clients_created w) \<and>
             map_of (sshClients fm') (clientKey host) = Some c' \<and>
             (c < clients_created w \<longrightarrow> c' \<noteq> c)) \<and>
          (\<forall>err. r = Inl err \<longrightarrow>
             clients_created w' = clients_created w \<and>
             map_of (sshClients fm') (clientKey host) = None))"
proof (intro conjI impI)
  assume same: "User h2 = User h1 \<and> Host h2 = Host h1 \<and> Port h2 = Port h1"
  then show "clientKey h2 = User h1 @ ''@'' @ Host h1 @ '':'' @ Port h1"
    by (simp add: clientKey_def)
  from same have key: "clientKey h2 = clientKey h1" by (simp add: clientKey_def)
  {
    assume a: "getSSHClient e1 h1 pw1 (fm0, w0) = (Inr c, fm, w) \<and> keepalive_err e c = None"
    then have "map_of (sshClients fm) (clientKey h1) = Some c"
      by (auto dest: getSSHClient_pooled)
    with key a show "getSSHClient e h2 pw2 (fm, w) = (Inr c, fm, w)"
      by (simp add: getSSHClient_reuse)
  }
  {
    assume b: "StartForwarding e1 rule1 h1 pw1 (fm0, w0) = (None, fm, w) \<and>
               (\<forall>c. map_of (sshClients fm) (clientKey h1) = Some c \<longrightarrow> keepalive_err e c = None) \<and>
               StartForwarding e rule2 h2 pw2 (fm, w) = (r2, fm2, w2)"
    then obtain c1 where c1: "map_of (sshClients fm) (clientKey h1) = Some c1"
      using StartForwarding_pooled by blast
    with key have pooled: "map_of (sshClients fm) (clientKey h2) = Some c1" by simp
    from b c1 have "keepalive_err e c1 = None" by blast
    from StartForwarding_reuse [OF pooled this] b
    show "sshClients fm2 = sshClients fm" and "w2 = w" by blast+
  }
next
  assume "map_of (sshClients fm) (clientKey host) = Some c \<and> keepalive_err e c \<noteq> None \<and>
      getSSHClient e host pw (fm, w) = (r, fm', w')"
  then show "clients_closed w' = c # clients_closed w"
    and "\<forall>c'. r = Inr c' \<longrightarrow>
             c' = clients_created w \<and> clients_created w' = Suc (clients_created w) \<and>
             map_of (sshClients fm') (clientKey host) = Some c' \<and>
             (c < clients_created w \<longrightarrow> c' \<noteq> c)"
    and "\<forall>err. r = Inl err \<longrightarrow>
             clients_created w' = clients_created w \<and>
             map_of (sshClients fm') (clientKey host) = None"
    using getSSHClient_evicts [of fm host c e pw w r fm' w'] by blast+
qed

theorem transport_pool_reuse_and_eviction_witness:
  "getSSHClient env_ok host_web [] state_a = (Inr 0, state_a) \<and>
   getSSHClient env_ok host_web2 ''secret'' state_a = (Inr 0, state_a) \<and>
   StartForwarding env_ok rule_a host_web [] (NewManager, world0) = (None, state_a) \<and>
   clients_created (snd state_a) = 1 \<and>
   fst (StartForwarding env_ok rule_d host_web2 [] state_a) = None \<and>
   snd (snd (StartForwarding env_ok rule_d host_web2 [] state_a)) = snd state_a \<and>
   map_of (sshClients (fst state_a)) (clientKey host_web) = Some 0 \<and>
   keepalive_err env_dead 0 = Some ''EOF'' \<and>
   fst (getSSHClient env_dead host_web [] state_a) = Inr 1 \<and>
   clients_closed (snd (snd (getSSHClient env_dead host_web [] state_a))) = [0] \<and>
   clients_created (snd (snd (getSSHClient env_dead host_web [] state_a))) = 2 \<and>
   map_of (sshClients (fst (snd (getSSHClient env_dead host_web [] state_a)))) (clientKey host_web) = Some 1"
proof -
  have same: "User host_web2 = User host_web \<and> Host host_web2 = Host host_web \<and>
              Port host_web2 = Port host_web"
    by (simp add: host_web_def host_web2_def)
  have first: "getSSHClient env_ok host_web [] (fst state_a, snd state_a)
                 = (Inr 0, fst state_a, snd state_a)"
    by code_simp
  have alive: "keepalive_err env_ok 0 = None" by (simp add: env_ok_def)
  have started: "StartForwarding env_ok rule_a host_web [] (NewManager, world0)
                   = (None, fst state_a, snd state_a)"
    by code_simp
  have alive_all: "\<forall>c. map_of (sshClients (fst state_a)) (clientKey host_web) = Some c
                        \<longrightarrow> keepalive_err env_ok c = None"
    by (simp add: env_ok_def)
  obtain r2 fm2 w2 where second:
    "StartForwarding env_ok rule_d host_web2 [] (fst state_a, snd state_a) = (r2, fm2, w2)"
    by (metis prod_cases3)
  have r2: "fst (StartForwarding env_ok rule_d host_web2 [] (fst state_a, snd state_a)) = None"
    by code_simp
  have created: "clients_created (snd state_a) = 1" by code_simp
  have pooled: "map_of (sshClients (fst state_a)) (clientKey host_web) = Some 0" by code_simp
  have dead: "keepalive_err env_dead 0 = Some ''EOF''" by (simp add: env_dead_def env_ok_def)
  obtain r fm' w' where stale:
    "getSSHClient env_dead host_web [] (fst state_a, snd state_a) = (r, fm', w')"
    by (metis prod_cases3)
  have r: "fst (getSSHClient env_dead host_web [] (fst state_a, snd state_a)) = Inr 1"
    by code_simp
  have closed: "clients_closed (snd state_a) = []" by code_simp
  note reuse = transport_pool_reuse_and_eviction
    [where ?h1.0 = host_web and ?h2.0 = host_web2 and ?e1.0 = env_ok and ?pw1.0 = "[]"
       and ?fm0.0 = "fst state_a" and ?w0.0 = "snd state_a" and c = 0
       and fm = "fst state_a" and w = "snd state_a" and e = env_ok and ?pw2.0 = "''secret''"]
  note sessions = transport_pool_reuse_and_eviction
    [where ?h1.0 = host_web and ?h2.0 = host_web2 and ?e1.0 = env_ok and ?pw1.0 = "[]"
       and ?fm0.0 = NewManager and ?w0.0 = world0 and ?rule1.0 = rule_a
       and fm = "fst state_a" and w = "snd state_a" and e = env_ok and ?pw2.0 = "[]"
       and ?rule2.0 = rule_d and ?r2.0 = r2 and ?fm2.0 = fm2 and ?w2.0 = w2]
  note evict = transport_pool_reuse_and_eviction
    [where fm = "fst state_a" and w = "snd state_a" and host = host_web and c = 0
       and e = env_dead and pw = "[]" and r = r and fm' = fm' and w' = w']
  from reuse [THEN conjunct1, THEN mp, OF same, THEN conjunct2, THEN conjunct1, THEN mp,
              OF conjI [OF first alive]]
  have a1: "getSSHClient env_ok host_web2 ''secret'' (fst state_a, snd state_a)
              = (Inr 0, fst state_a, snd state_a)" .
  from sessions [THEN conjunct1, THEN mp, OF same, THEN conjunct2, THEN conjunct2, THEN mp,
                 OF conjI [OF started conjI [OF alive_all second]]]
  have a2: "w2 = snd state_a" by (rule conjunct2)
  note ev = evict [THEN conjunct2, THEN mp, OF conjI [OF pooled conjI [OF _ stale]]]
  have dead': "keepalive_err env_dead 0 \<noteq> None" using dead by simp
  have r': "r = Inr 1" using r stale by simp
  from ev [OF dead', THEN conjunct1] closed have b1: "clients_closed w' = [0]" by simp
  from ev [OF dead', THEN conjunct2, THEN conjunct1, THEN spec, THEN mp, OF r'] created
  have b2: "clients_created w' = 2" "map_of (sshClients fm') (clientKey host_web) = Some 1"
    by simp_all
  note b = b1 b2
  from first a1 started created r2 second a2 pooled dead r stale b show ?thesis
    by simp
qed

section \<open>The rule parser\<close>

lemma upper_char_eq_upper:
  assumes "65 \<le> (of_char u :: nat)" "(of_char u :: nat) \<le> 90"
  shows "upper_char c = u \<longleftrightarrow> c = u \<or> (of_char c :: nat) = of_char u + 32"
proof (cases "97 \<le> (of_char c :: nat) \<and> (of_char c :: nat) \<le> 122")
  case True
  then have "upper_char c = char_of ((of_char c :: nat) - 32)" by (simp add: upper_char_def)
  moreover have "(of_char c :: nat) - 32 < 256"
  proof -
    have "(of_char c :: nat) < 256" by simp
    then show ?thesis by linarith
  qed
  then have "char_of ((of_char c :: nat) - 32) = u \<longleftrightarrow> (of_char c :: nat) - 32 = of_char u"
    by (simp add: char_of_eq_iff take_bit_nat_eq_self)
  moreover from True assms have "c \<noteq> u" by auto
  ultimately show ?thesis using True by auto
next
  case False
  then have "upper_char c = c" by (auto simp: upper_char_def)
  with False assms show ?thesis by auto
qed

lemma upper_char_D: "upper_char c = CHR ''D'' \<longleftrightarrow> c = CHR ''D'' \<or> c = CHR ''d''"
proof -
  have "(of_char c :: nat) = of_char CHR ''D'' + 32 \<longleftrightarrow> (of_char c :: nat) = of_char CHR ''d''"
    by simp
  then show ?thesis
    using upper_char_eq_upper [of "CHR ''D''" c] by (simp only: of_char_eq_iff) simp
qed

lemma upper_char_R: "upper_char c = CHR ''R'' \<longleftrightarrow> c = CHR ''R'' \<or> c = CHR ''r''"
proof -
  have "(of_char c :: nat) = of_char CHR ''R'' + 32 \<longleftrightarrow> (of_char c :: nat) = of_char CHR ''r''"
    by simp
  then show ?thesis
    using upper_char_eq_upper [of "CHR ''R''" c] by (simp only: of_char_eq_iff) simp
qed

lemma ToUpper_D: "ToUpper t = ''D'' \<longleftrightarrow> t = ''D'' \<or> t = ''d''"
  by (cases t) (auto simp: ToUpper_def upper_char_D)

lemma ToUpper_R: "ToUpper t = ''R'' \<longleftrightarrow> t = ''R'' \<or> t = ''r''"
  by (cases t) (auto simp: ToUpper_def upper_char_R)

lemma Split_not_Nil: "Split c s \<noteq> []"
  by (induction s) (auto split: list.splits)

lemma Split_free: "p \<in> set (Split c s) \<Longrightarrow> c \<notin> set p"
  by (induction s arbitrary: p) (auto split: if_splits list.splits)

lemma Split_no_sep: "c \<notin> set p \<Longrightarrow> Split c p = [p]"
  by (induction p) auto

lemma Split_append_sep: "c \<notin> set p \<Longrightarrow> Split c (p @ c # rest) = p # Split c rest"
  by (induction p) (auto)

lemma Join_Split: "Join c (Split c s) = s"
proof (induction s)
  case Nil
  then show ?case by simp
next
  case (Cons x xs)
  obtain p ps where sp: "Split c xs = p # ps"
    using Split_not_Nil [of c xs] by (cases "Split c xs") auto
  with Cons show ?case by (cases ps) auto
qed

lemma Split_Join:
  "ps \<noteq> [] \<Longrightarrow> \<forall>p \<in> set ps. c \<notin> set p \<Longrightarrow> Split c (Join c ps) = ps"
proof (induction c ps rule: Join.induct)
  case (1 sep)
  then show ?case by simp
next
  case (2 sep p)
  then show ?case by (simp add: Split_no_sep)
next
  case (3 sep p q ps)
  then show ?case by (simp add: Split_append_sep)
qed

lemma Split_eq_iff:
  "Split c s = ps \<longleftrightarrow> ps \<noteq> [] \<and> (\<forall>p \<in> set ps. c \<notin> set p) \<and> s = Join c ps"
  using Split_not_Nil [of c s] Split_free [of _ c s] Join_Split [of c s] Split_Join [of ps c]
  by auto

lemma length_Split_2:
  "length (Split c s) = 2 \<longleftrightarrow> (\<exists>a b. Split c s = [a, b])"
  by (cases "Split c s" rule: list.exhaust) (auto simp: length_Suc_conv)

lemma digits_no_colon: "list_all is_digit ds \<Longrightarrow> CHR '':'' \<notin> set ds"
  by (induction ds) (auto simp: is_digit_def)

lemma Atoi_no_colon: "Atoi p = Some v \<Longrightarrow> CHR '':'' \<notin> set p"
proof -
  assume a: "Atoi p = Some v"
  let ?ds = "if p \<noteq> [] \<and> (hd p = CHR ''-'' \<or> hd p = CHR ''+'') then tl p else p"
  from a have "list_all is_digit ?ds"
    by (auto simp: Atoi_def Let_def split: if_splits)
  then have "CHR '':'' \<notin> set ?ds" by (rule digits_no_colon)
  then show ?thesis by (cases p) (auto split: if_splits)
qed

lemma parse_two:
  assumes "Split CHR '':'' s = [t, p]"
  shows "parseForwardingRule s = Inr r \<longleftrightarrow>
           (t = ''D'' \<or> t = ''d'') \<and> (\<exists>port. Atoi p = Some port \<and> r = dynamic_rule s port)"
  using assms
  by (auto simp: parseForwardingRule_def Let_def ToUpper_D dynamic_rule_def LocalForward_def
           split: option.splits)

lemma parse_four:
  assumes "Split CHR '':'' s = [t, lp, h, rp]"
  shows "parseForwardingRule s = Inr r \<longleftrightarrow>
           (t = ''R'' \<or> t = ''r'') \<and>
           (\<exists>a b. Atoi lp = Some a \<and> Atoi rp = Some b \<and> r = remote_rule s a h b)"
  using assms
  by (auto simp: parseForwardingRule_def Let_def ToUpper_R remote_rule_def LocalForward_def
                 numeral_3_eq_3
           split: option.splits)

lemma parse_three:
  assumes "Split CHR '':'' s = [lp, h, rp]"
  shows "parseForwardingRule s = Inr r \<longleftrightarrow>
           (\<exists>a b. Atoi lp = Some a \<and> Atoi rp = Some b \<and> r = local_rule s a h b)"
  using assms
  by (auto simp: parseForwardingRule_def Let_def local_rule_def LocalForward_def
           split: option.splits)

lemma parse_other:
  assumes "length (Split CHR '':'' s) \<noteq> 2" "length (Split CHR '':'' s) \<noteq> 3"
    "length (Split CHR '':'' s) \<noteq> 4"
  shows "parseForwardingRule s =
           Inl ''invalid forwarding rule format. Use: [R:]local_port:remote_host:remote_port or D:port''"
  using assms by (simp add: parseForwardingRule_def Let_def)

text \<open>
  C9. The texts the parser accepts are exactly these: two pieces \<open>t:port\<close> with
  \<open>t\<close> the letter D in either case (a Dynamic rule on that local port), four pieces
  \<open>t:localPort:remoteHost:remotePort\<close> with \<open>t\<close> the letter R in either case (a
  Remote rule), and three pieces \<open>localPort:remoteHost:remotePort\<close> (a Local rule),
  where the host holds no colon and each port is a text \<open>strconv.Atoi\<close> accepts: an
  optional sign and decimal digits, within 64 bits. Every other text yields an error.
\<close>

theorem parseForwardingRule_accepts_exactly:
  "parseForwardingRule s = Inr r \<longleftrightarrow>
     (\<exists>t p port. s = t @ '':'' @ p \<and> (t = ''D'' \<or> t = ''d'') \<and>
          Atoi p = Some port \<and> r = dynamic_rule s port) \<or>
     (\<exists>t lp h rp a b. s = t @ '':'' @ lp @ '':'' @ h @ '':'' @ rp \<and> (t = ''R'' \<or> t = ''r'') \<and>
          CHR '':'' \<notin> set h \<and> Atoi lp = Some a \<and> Atoi rp = Some b \<and> r = remote_rule s a h b) \<or>
     (\<exists>lp h rp a b. s = lp @ '':'' @ h @ '':'' @ rp \<and>
          CHR '':'' \<notin> set h \<and> Atoi lp = Some a \<and> Atoi rp = Some b \<and> r = local_rule s a h b)"
  (is "?L \<longleftrightarrow> ?D \<or> ?R \<or> ?Loc")
proof -
  let ?P = "Split CHR '':'' s"
  have two: "?P = [t, p] \<longleftrightarrow> s = t @ '':'' @ p \<and> CHR '':'' \<notin> set t \<and> CHR '':'' \<notin> set p" for t p
    by (auto simp: Split_eq_iff)
  have three: "?P = [lp, h, rp] \<longleftrightarrow>
      s = lp @ '':'' @ h @ '':'' @ rp \<and> CHR '':'' \<notin> set lp \<and> CHR '':'' \<notin> set h \<and> CHR '':'' \<notin> set rp"
    for lp h rp
    by (auto simp: Split_eq_iff)
  have four: "?P = [t, lp, h, rp] \<longleftrightarrow>
      s = t @ '':'' @ lp @ '':'' @ h @ '':'' @ rp \<and> CHR '':'' \<notin> set t \<and> CHR '':'' \<notin> set lp \<and>
      CHR '':'' \<notin> set h \<and> CHR '':'' \<notin> set rp"
    for t lp h rp
    by (auto simp: Split_eq_iff)
  have D: "?D \<longleftrightarrow> (\<exists>t p. ?P = [t, p] \<and> (t = ''D'' \<or> t = ''d'') \<and>
                    (\<exists>port. Atoi p = Some port \<and> r = dynamic_rule s port))"
    (is "_ \<longleftrightarrow> ?D'")
  proof
    assume ?D
    then obtain t p port where *: "s = t @ '':'' @ p" "t = ''D'' \<or> t = ''d''"
      "Atoi p = Some port" "r = dynamic_rule s port" by blast
    from *(2) have "CHR '':'' \<notin> set t" by auto
    with *(1) Atoi_no_colon [OF *(3)]
    have "s = t @ '':'' @ p \<and> CHR '':'' \<notin> set t \<and> CHR '':'' \<notin> set p" by simp
    then have "?P = [t, p]" by (rule two [THEN iffD2])
    with * show ?D' by blast
  next
    assume ?D'
    then obtain t p port where *: "?P = [t, p]" "t = ''D'' \<or> t = ''d''"
      "Atoi p = Some port" "r = dynamic_rule s port" by blast
    from two [THEN iffD1, OF *(1)] have "s = t @ '':'' @ p" by blast
    with * show ?D by blast
  qed
  have R: "?R \<longleftrightarrow> (\<exists>t lp h rp. ?P = [t, lp, h, rp] \<and> (t = ''R'' \<or> t = ''r'') \<and>
                    (\<exists>a b. Atoi lp = Some a \<and> Atoi rp = Some b \<and> r = remote_rule s a h b))"
    (is "_ \<longleftrightarrow> ?R'")
  proof
    assume ?R
    then obtain t lp h rp a b where *: "s = t @ '':'' @ lp @ '':'' @ h @ '':'' @ rp"
      "t = ''R'' \<or> t = ''r''" "CHR '':'' \<notin> set h" "Atoi lp = Some a" "Atoi rp = Some b"
      "r = remote_rule s a h b" by blast
    from *(2) have "CHR '':'' \<notin> set t" by auto
    with *(1,3) Atoi_no_colon [OF *(4)] Atoi_no_colon [OF *(5)]
    have "s = t @ '':'' @ lp @ '':'' @ h @ '':'' @ rp \<and> CHR '':'' \<notin> set t \<and> CHR '':'' \<notin> set lp \<and>
          CHR '':'' \<notin> set h \<and> CHR '':'' \<notin> set rp" by simp
    then have "?P = [t, lp, h, rp]" by (rule four [THEN iffD2])
    with * show ?R' by blast
  next
    assume ?R'
    then obtain t lp h rp a b where *: "?P = [t, lp, h, rp]" "t = ''R'' \<or> t = ''r''"
      "Atoi lp = Some a" "Atoi rp = Some b" "r = remote_rule s a h b" by blast
    from four [THEN iffD1, OF *(1)]
    have "s = t @ '':'' @ lp @ '':'' @ h @ '':'' @ rp" "CHR '':'' \<notin> set h" by blast+
    with * show ?R by blast
  qed
  have Loc: "?Loc \<longleftrightarrow> (\<exists>lp h rp. ?P = [lp, h, rp] \<and>
                    (\<exists>a b. Atoi lp = Some a \<and> Atoi rp = Some b \<and> r = local_rule s a h b))"
    (is "_ \<longleftrightarrow> ?Loc'")
  proof
    assume ?Loc
    then obtain lp h rp a b where *: "s = lp @ '':'' @ h @ '':'' @ rp"
      "CHR '':'' \<notin> set h" "Atoi lp = Some a" "Atoi rp = Some b"
      "r = local_rule s a h b" by blast
    with Atoi_no_colon [OF *(3)] Atoi_no_colon [OF *(4)]
    have "s = lp @ '':'' @ h @ '':'' @ rp \<and> CHR '':'' \<notin> set lp \<and> CHR '':'' \<notin> set h \<and>
          CHR '':'' \<notin> set rp" by simp
    then have "?P = [lp, h, rp]" by (rule three [THEN iffD2])
    with * show ?Loc' by blast
  next
    assume ?Loc'
    then obtain lp h rp a b where *: "?P = [lp, h, rp]"
      "Atoi lp = Some a" "Atoi rp = Some b" "r = local_rule s a h b" by blast
    from three [THEN iffD1, OF *(1)]
    have "s = lp @ '':'' @ h @ '':'' @ rp" "CHR '':'' \<notin> set h" by blast+
    with * show ?Loc by blast
  qed
  consider (two) t p where "?P = [t, p]"
    | (three) lp h rp where "?P = [lp, h, rp]"
    | (four) t lp h rp where "?P = [t, lp, h, rp]"
    | (other) "length ?P \<noteq> 2" "length ?P \<noteq> 3" "length ?P \<noteq> 4"
    by (cases "length ?P = 2 \<or> length ?P = 3 \<or> length ?P = 4")
       (auto simp: length_Suc_conv numeral_2_eq_2 numeral_3_eq_3 eval_nat_numeral)
  then show ?thesis
  proof cases
    case two
    then show ?thesis unfolding D R Loc by (simp add: parse_two [OF two])
  next
    case three
    then show ?thesis unfolding D R Loc by (simp add: parse_three [OF three])
  next
    case four
    then show ?thesis unfolding D R Loc by (simp add: parse_four [OF four])
  next
    case other
    then have "?L = False" by (simp add: parse_other)
    moreover from other have "\<not> (\<exists>t p. ?P = [t, p])" "\<not> (\<exists>lp h rp. ?P = [lp, h, rp])"
      "\<not> (\<exists>t lp h rp. ?P = [t, lp, h, rp])" by auto
    ultimately show ?thesis unfolding D R Loc by blast
  qed
qed

theorem parseForwardingRule_accepts_exactly_witness:
  "Atoi ''9000'' = Some 9000 \<and> Atoi ''5432'' = Some 5432 \<and>
   parseForwardingRule ''r:9000:db:5432'' = Inr (remote_rule ''r:9000:db:5432'' 9000 ''db'' 5432) \<and>
   parseForwardingRule ''D:1080'' = Inr (dynamic_rule ''D:1080'' 1080) \<and>
   parseForwardingRule ''-1::+2'' = Inr (local_rule ''-1::+2'' (- 1) [] 2) \<and>
   parseForwardingRule ''X:9000:db:5432'' =
     Inl ''invalid forwarding rule format. Use: [R:]local_port:remote_host:remote_port or D:port'' \<and>
   parseForwardingRule ''8080:localhost:http'' = Inl ''invalid remote port: http''"
proof -
  have a: "Atoi ''9000'' = Some 9000" and b: "Atoi ''5432'' = Some 5432" by code_simp+
  have "\<exists>t lp h rp a b. ''r:9000:db:5432'' = t @ '':'' @ lp @ '':'' @ h @ '':'' @ rp \<and>
          (t = ''R'' \<or> t = ''r'') \<and> CHR '':'' \<notin> set h \<and> Atoi lp = Some a \<and> Atoi rp = Some b \<and>
          remote_rule ''r:9000:db:5432'' 9000 ''db'' 5432 = remote_rule ''r:9000:db:5432'' a h b"
    using a b
    by (intro exI [of _ "''r''"] exI [of _ "''9000''"] exI [of _ "''db''"] exI [of _ "''5432''"]
              exI [of _ 9000] exI [of _ 5432]) simp
  with parseForwardingRule_accepts_exactly
         [of "''r:9000:db:5432''" "remote_rule ''r:9000:db:5432'' 9000 ''db'' 5432"]
  have "parseForwardingRule ''r:9000:db:5432'' = Inr (remote_rule ''r:9000:db:5432'' 9000 ''db'' 5432)"
    by blast
  moreover have "parseForwardingRule ''D:1080'' = Inr (dynamic_rule ''D:1080'' 1080)" by code_simp
  moreover have "parseForwardingRule ''-1::+2'' = Inr (local_rule ''-1::+2'' (- 1) [] 2)" by code_simp
  moreover have "parseForwardingRule ''X:9000:db:5432'' =
     Inl ''invalid forwarding rule format. Use: [R:]local_port:remote_host:remote_port or D:port''"
    by code_simp
  moreover have "parseForwardingRule ''8080:localhost:http'' = Inl ''invalid remote port: http''"
    by code_simp
  ultimately show ?thesis using a b by simp
qed

text \<open>
  The text \<open>d:1080\<close> is not one of the three encodings as the specification writes
  them, and the parser accepts it.
\<close>

theorem parseForwardingRule_lowercase_counterexample:
  "parseForwardingRule ''d:1080'' = Inr rule_d \<and> \<not> spec_rule_text ''d:1080''"
  by code_simp

section \<open>Rule ids from the command line\<close>

lemma parseForwardingRule_ID:
  assumes "parseForwardingRule s = Inr r"
  shows "ID r = ''cli-'' @ itoa (int (length s))"
  using assms
  by (auto simp: parseForwardingRule_def Let_def split: if_splits option.splits)

text \<open>
  C10. The id of a parsed rule is \<open>cli-\<close> followed by the length of the rule text and
  depends on nothing else. The texts \<open>8080:localhost:80\<close> and \<open>8081:localhost:80\<close>
  differ, have the same length, and parse to different rules with the same id
  \<open>cli-17\<close>; once the first has been started, starting the second on the same manager
  fails with "forwarding session cli-17 already exists", whatever the environment and
  the host, and changes nothing.
\<close>

theorem parsed_rule_id_is_text_length:
  "(\<forall>s r. parseForwardingRule s = Inr r \<longrightarrow> ID r = ''cli-'' @ itoa (int (length s))) \<and>
   ''8080:localhost:80'' \<noteq> ''8081:localhost:80'' \<and>
   length ''8080:localhost:80'' = length ''8081:localhost:80'' \<and>
   parseForwardingRule ''8080:localhost:80'' = Inr rule_a \<and>
   parseForwardingRule ''8081:localhost:80'' = Inr rule_b \<and>
   rule_a \<noteq> rule_b \<and> ID rule_a = ID rule_b \<and>
   (\<forall>e1 h1 p1 st fm w e2 h2 p2.
      StartForwarding e1 rule_a h1 p1 st = (None, fm, w) \<longrightarrow>
      StartForwarding e2 rule_b h2 p2 (fm, w) =
        (Some ''forwarding session cli-17 already exists'', fm, w))"
proof -
  have ids: "\<forall>s r. parseForwardingRule s = Inr r \<longrightarrow> ID r = ''cli-'' @ itoa (int (length s))"
    by (simp add: parseForwardingRule_ID)
  have pa: "parseForwardingRule ''8080:localhost:80'' = Inr rule_a" by code_simp
  have pb: "parseForwardingRule ''8081:localhost:80'' = Inr rule_b" by code_simp
  have diff: "rule_a \<noteq> rule_b" by (simp add: rule_a_def rule_b_def)
  have same: "ID rule_a = ID rule_b" by (simp add: rule_a_def rule_b_def)
  have clash: "StartForwarding e2 rule_b h2 p2 (fm, w) =
                 (Some ''forwarding session cli-17 already exists'', fm, w)"
    if "StartForwarding e1 rule_a h1 p1 st = (None, fm, w)" for e1 h1 p1 st fm w e2 h2 p2
  proof -
    from that have "StartForwarding e1 rule_a h1 p1 (fst st, snd st) = (None, fm, w)" by simp
    from StartForwarding_sessions [OF this] obtain s where
      "sessions fm = AList.update (ID rule_a) s (sessions (fst st))" by auto
    then have "map_of (sessions fm) (ID rule_b) \<noteq> None"
      by (simp add: AList.update_conv' same)
    then show ?thesis by (simp add: StartForwarding_def rule_b_def)
  qed
  from ids pa pb diff same clash show ?thesis by simp
qed

theorem parsed_rule_id_is_text_length_witness:
  "parseForwardingRule ''D:1080'' = Inr rule_d \<and> ID rule_d = ''cli-6'' \<and>
   itoa (int (length ''D:1080'')) = ''6'' \<and>
   StartForwarding env_ok rule_a host_web [] (NewManager, world0) = (None, state_a) \<and>
   StartForwarding env_ok rule_b host_web2 [] state_a =
     (Some ''forwarding session cli-17 already exists'', state_a)"
proof -
  have p: "parseForwardingRule ''D:1080'' = Inr rule_d" by code_simp
  have len: "itoa (int (length ''D:1080'')) = ''6''" by code_simp
  have started: "StartForwarding env_ok rule_a host_web [] (NewManager, world0)
                   = (None, fst state_a, snd state_a)"
    by code_simp
  note T = parsed_rule_id_is_text_length
  from T [THEN conjunct1, THEN spec, THEN spec, THEN mp, OF p] len
  have "ID rule_d = ''cli-6''" by simp
  moreover from T have "\<forall>e1 h1 p1 st fm w e2 h2 p2.
      StartForwarding e1 rule_a h1 p1 st = (None, fm, w) \<longrightarrow>
      StartForwarding e2 rule_b h2 p2 (fm, w) =
        (Some ''forwarding session cli-17 already exists'', fm, w)" by blast
  with started have "StartForwarding env_ok rule_b host_web2 [] (fst state_a, snd state_a) =
     (Some ''forwarding session cli-17 already exists'', fst state_a, snd state_a)" by blast
  ultimately show ?thesis using p len started by simp
qed

section \<open>The SOCKS5 negotiator\<close>

lemma port_value:
  assumes "port < 65536"
  shows "push_bit 8 (uint (of_nat (port div 256) :: byte)) + uint (of_nat (port mod 256) :: byte) = int port"
proof -
  from assms have "port div 256 < 256" by simp
  then have hi: "uint (of_nat (port div 256) :: byte) = int (port div 256)"
    by (simp add: uint_nat unat_of_nat)
  have lo: "uint (of_nat (port mod 256) :: byte) = int (port mod 256)"
    by (simp add: uint_nat unat_of_nat)
  have "int (port div 256) * 256 + int (port mod 256) = int port"
    by (simp add: zdiv_int zmod_int)
  then show ?thesis unfolding hi lo by (simp add: push_bit_eq_mult)
qed

lemma read_into_nth: "i < length data \<Longrightarrow> read_into buf data ! i = data ! i"
  by (simp add: read_into_def nth_append)

lemma read_into_take: "k \<le> length data \<Longrightarrow> take k (read_into buf data) = take k data"
  by (simp add: read_into_def)

text \<open>The two reads of the negotiator, when the greeting and the request arrive one after the other.\<close>

lemma socks5Handshake_two_reads:
  assumes "\<not> closed c"
    and "incoming c = (greeting, None) # (request, None) # rest"
    and "3 \<le> length greeting" "length greeting \<le> 256" "greeting ! 0 = 0x05"
    and "length request \<le> 256"
  shows "socks5Handshake c =
     (let c3 = (snd (conn_Write [0x05, 0x00] (c\<lparr>incoming := (request, None) # rest\<rparr>)))\<lparr>incoming := rest\<rparr>;
          n = length request; buf = read_into (read_into (replicate 256 0) greeting) request in
      if n < 7 \<or> buf ! 0 \<noteq> 0x05 \<or> buf ! 1 \<noteq> 0x01
      then (Inl ''invalid SOCKS5 request'', c3)
      else if buf ! 3 = 0x01 then
        (if n < 10 then (Inl ''invalid IPv4 address'', c3)
         else
           (Inr (itoa (uint (buf ! 4)) @ ''.'' @ itoa (uint (buf ! 5)) @ ''.'' @
                 itoa (uint (buf ! 6)) @ ''.'' @ itoa (uint (buf ! 7)) @ '':'' @
                 itoa (push_bit 8 (uint (buf ! 8)) + uint (buf ! 9))), c3))
      else if buf ! 3 = 0x03 then
        (if n < 7 then (Inl ''invalid domain name'', c3)
         else
           (let domainLen = unat (buf ! 4) in
            if n < 7 + domainLen then (Inl ''incomplete domain name'', c3)
            else
              (let domain = bytes_string (take domainLen (drop 5 buf));
                   port = push_bit 8 (uint (buf ! (5 + domainLen)))
                            + uint (buf ! (6 + domainLen))
               in (Inr (domain @ '':'' @ itoa port), c3))))
      else (Inl ''unsupported address type'', c3))"
proof -
  have r1: "conn_Read 256 c = ((greeting, None), c\<lparr>incoming := (request, None) # rest\<rparr>)"
    using assms by (simp add: conn_Read_def)
  let ?c1 = "c\<lparr>incoming := (request, None) # rest\<rparr>"
  let ?c2 = "snd (conn_Write [0x05, 0x00] ?c1)"
  have c2: "incoming ?c2 = (request, None) # rest" "\<not> closed ?c2"
    using assms(1) by (auto simp: conn_Write_def Let_def split: list.splits)
  then have r2: "conn_Read 256 ?c2 = ((request, None), ?c2\<lparr>incoming := rest\<rparr>)"
    using assms(6) by (simp add: conn_Read_def)
  have "0 < length greeting" using assms(3) by linarith
  then have "read_into (replicate 256 0) greeting ! 0 = greeting ! 0" by (rule read_into_nth)
  with assms(5) have g0: "read_into (replicate 256 0) greeting ! 0 = 0x05" by simp
  show ?thesis
    unfolding socks5Handshake_def r1 using assms(3) g0
    by (simp add: Let_def r2)
qed


lemma greeting_ok:
  assumes "methods \<noteq> []" "length methods \<le> 254"
  shows "3 \<le> length (socks5_greeting methods)" "length (socks5_greeting methods) \<le> 256"
    "socks5_greeting methods ! 0 = 0x05"
  using assms by (cases methods; simp add: socks5_greeting_def)+

lemma handshake_ipv4:
  assumes "\<not> closed c"
    and "incoming c = (socks5_greeting methods, None) # (connect_ipv4 a1 a2 a3 a4 port, None) # rest"
    and "methods \<noteq> []" "length methods \<le> 254" "port < 65536"
  shows "fst (socks5Handshake c) =
           Inr (itoa (uint a1) @ ''.'' @ itoa (uint a2) @ ''.'' @ itoa (uint a3) @ ''.'' @
                itoa (uint a4) @ '':'' @ itoa (int port))"
proof -
  have len: "length (connect_ipv4 a1 a2 a3 a4 port) \<le> 256"
    by (simp add: connect_ipv4_def port_bytes_def)
  note red = socks5Handshake_two_reads [OF assms(1,2) greeting_ok [OF assms(3,4)] len]
  show ?thesis
    unfolding red
    by (simp add: Let_def connect_ipv4_def port_bytes_def read_into_def port_value [OF assms(5)])
qed

lemma handshake_ipv6:
  assumes "\<not> closed c"
    and "incoming c = (socks5_greeting methods, None) # (connect_ipv6 addr port, None) # rest"
    and "methods \<noteq> []" "length methods \<le> 254" "length addr = 16"
  shows "socks5Handshake c =
           (Inl ''unsupported address type'',
            (snd (conn_Write [0x05, 0x00] (c\<lparr>incoming := (connect_ipv6 addr port, None) # rest\<rparr>)))
              \<lparr>incoming := rest\<rparr>)"
proof -
  have len: "length (connect_ipv6 addr port) \<le> 256"
    using assms(5) by (simp add: connect_ipv6_def port_bytes_def)
  note red = socks5Handshake_two_reads [OF assms(1,2) greeting_ok [OF assms(3,4)] len]
  show ?thesis
    unfolding red using assms(5)
    by (simp add: Let_def connect_ipv6_def port_bytes_def read_into_def)
qed

lemma bytes_string_append: "bytes_string (xs @ ys) = bytes_string xs @ bytes_string ys"
  by (simp add: bytes_string_def)

lemma handshake_domain:
  assumes "\<not> closed c"
    and "incoming c = (socks5_greeting methods, None) # (connect_domain name port, None) # rest"
    and "methods \<noteq> []" "length methods \<le> 254" "length name \<le> 249" "port < 65536"
  shows "fst (socks5Handshake c) = Inr (bytes_string name @ '':'' @ itoa (int port))"
proof -
  let ?req = "connect_domain name port"
  let ?buf = "read_into (read_into (replicate 256 0) (socks5_greeting methods)) ?req"
  have n: "length ?req = 7 + length name"
    by (simp add: connect_domain_def port_bytes_def)
  with assms(5) have len: "length ?req \<le> 256" by simp
  note red = socks5Handshake_two_reads [OF assms(1,2) greeting_ok [OF assms(3,4)] len]
  have nth: "?buf ! i = ?req ! i" if "i < 7 + length name" for i
    using that n by (simp add: read_into_nth)
  have b0: "?buf ! 0 = 0x05" "?buf ! 1 = 0x01" "?buf ! 3 = 0x03"
    "?buf ! 4 = of_nat (length name)"
    using nth [of 0] nth [of 1] nth [of 3] nth [of 4] by (simp_all add: connect_domain_def)
  have dl: "unat (of_nat (length name) :: byte) = length name"
    using assms(5) by (simp add: unat_of_nat)
  have req: "?req = [0x05, 0x01, 0x00, 0x03, of_nat (length name)] @ name @ port_bytes port"
    by (simp add: connect_domain_def)
  have "take (length name) (drop 5 ?buf) = take (length name) (drop 5 ?req)"
    using n by (simp add: read_into_def)
  also have "\<dots> = name" by (simp add: connect_domain_def)
  finally have dom: "take (length name) (drop 5 ?buf) = name" .
  have hi: "?buf ! (5 + length name) = of_nat (port div 256)"
  proof -
    have "?buf ! (5 + length name) = ?req ! (5 + length name)" by (simp add: nth)
    also have "\<dots> = (name @ port_bytes port) ! length name"
      unfolding req by (simp add: nth_append)
    also have "\<dots> = of_nat (port div 256)" by (simp add: nth_append port_bytes_def)
    finally show ?thesis .
  qed
  have lo: "?buf ! (6 + length name) = of_nat (port mod 256)"
  proof -
    have "?buf ! (6 + length name) = ?req ! (6 + length name)" by (simp add: nth)
    also have "\<dots> = (name @ port_bytes port) ! (Suc (length name))"
      unfolding req by (simp add: nth_append)
    also have "\<dots> = of_nat (port mod 256)" by (simp add: nth_append port_bytes_def)
    finally show ?thesis .
  qed
  show ?thesis
    unfolding red Let_def n b0 dl dom hi lo
    by (simp add: port_value [OF assms(6)])
qed

text \<open>
  C4. On a connection that delivers a greeting (offering at least one method) to the
  first read and a CONNECT request to the second, the negotiator returns: for an IPv4
  request the dotted quad and the big-endian port, as decimal numbers; for a domain
  request whose name has at most 249 bytes (so that the request fits the 256-byte read
  buffer) the name and the port; for an IPv6 request the error "unsupported address
  type". In the IPv6 case the handler returns without dialing, and all that has been
  written to the connection is the two-byte method selection \<open>05 00\<close> the
  negotiator sent before it read the request: no SOCKS5 reply follows it.
\<close>

theorem socks5_negotiation:
  assumes "\<not> closed c" and "methods \<noteq> []" and "length methods \<le> 254" and "port < 65536"
  shows "(incoming c = (socks5_greeting methods, None) # (connect_ipv4 a1 a2 a3 a4 port, None) # rest
            \<longrightarrow> fst (socks5Handshake c) =
                  Inr (itoa (uint a1) @ ''.'' @ itoa (uint a2) @ ''.'' @ itoa (uint a3) @ ''.'' @
                       itoa (uint a4) @ '':'' @ itoa (int port))) \<and>
         (incoming c = (socks5_greeting methods, None) # (connect_domain name port, None) # rest \<and>
          length name \<le> 249
            \<longrightarrow> fst (socks5Handshake c) = Inr (bytes_string name @ '':'' @ itoa (int port))) \<and>
         (incoming c = (socks5_greeting methods, None) # (connect_ipv6 addr port, None) # rest \<and>
          length addr = 16
            \<longrightarrow> fst (socks5Handshake c) = Inl ''unsupported address type'' \<and>
                h_dialed (handleSOCKS5Connection sshDial evs s c) = None \<and>
                h_returned (handleSOCKS5Connection sshDial evs s c) \<and>
                (accepts c = [] \<longrightarrow>
                   outgoing (h_accepted (handleSOCKS5Connection sshDial evs s c))
                     = outgoing c @ [0x05, 0x00]))"
proof (intro conjI impI)
  assume "incoming c = (socks5_greeting methods, None) # (connect_ipv4 a1 a2 a3 a4 port, None) # rest"
  from handshake_ipv4 [OF assms(1) this assms(2,3,4)]
  show "fst (socks5Handshake c) =
          Inr (itoa (uint a1) @ ''.'' @ itoa (uint a2) @ ''.'' @ itoa (uint a3) @ ''.'' @
               itoa (uint a4) @ '':'' @ itoa (int port))" .
next
  assume "incoming c = (socks5_greeting methods, None) # (connect_domain name port, None) # rest \<and>
          length name \<le> 249"
  then show "fst (socks5Handshake c) = Inr (bytes_string name @ '':'' @ itoa (int port))"
    using handshake_domain [OF assms(1) _ assms(2,3) _ assms(4)] by blast
next
  assume a: "incoming c = (socks5_greeting methods, None) # (connect_ipv6 addr port, None) # rest \<and>
          length addr = 16"
  then have hs: "socks5Handshake c =
           (Inl ''unsupported address type'',
            (snd (conn_Write [0x05, 0x00] (c\<lparr>incoming := (connect_ipv6 addr port, None) # rest\<rparr>)))
              \<lparr>incoming := rest\<rparr>)"
    using handshake_ipv6 [OF assms(1) _ assms(2,3)] by blast
  then show "fst (socks5Handshake c) = Inl ''unsupported address type''" by simp
  from hs show "h_dialed (handleSOCKS5Connection sshDial evs s c) = None"
    and "h_returned (handleSOCKS5Connection sshDial evs s c)"
    by (simp_all add: handleSOCKS5Connection_def)
  {
    assume "accepts c = []"
    with hs assms(1)
    show "outgoing (h_accepted (handleSOCKS5Connection sshDial evs s c)) = outgoing c @ [0x05, 0x00]"
      by (simp add: handleSOCKS5Connection_def conn_Close_def conn_Write_def)
  }
qed

theorem socks5_negotiation_witness:
  "fst (socks5Handshake (client_conn [socks5_greeting [0x00], connect_ipv4 93 184 216 34 80]))
     = Inr ''93.184.216.34:80'' \<and>
   fst (socks5Handshake (client_conn [socks5_greeting [0x00], connect_domain example_com 80]))
     = Inr ''example.com:80'' \<and>
   fst (socks5Handshake (client_conn [socks5_greeting [0x00], connect_ipv6 (replicate 16 0) 80]))
     = Inl ''unsupported address type'' \<and>
   outgoing (h_accepted (handleSOCKS5Connection (\<lambda>a. Inl ''unreachable'') [] (newSession env_ok rule_d)
       (client_conn [socks5_greeting [0x00], connect_ipv6 (replicate 16 0) 80])))
     = [0x05, 0x00]"
proof -
  let ?c4 = "client_conn [socks5_greeting [0x00], connect_ipv4 93 184 216 34 80]"
  let ?cd = "client_conn [socks5_greeting [0x00], connect_domain example_com 80]"
  let ?c6 = "client_conn [socks5_greeting [0x00], connect_ipv6 (replicate 16 0) 80]"
  have open4: "\<not> closed ?c4" and opend: "\<not> closed ?cd" and open6: "\<not> closed ?c6"
    by (simp_all add: client_conn_def)
  have m: "[0x00 :: byte] \<noteq> []" "length [0x00 :: byte] \<le> 254" "(80 :: nat) < 65536"
    by simp_all
  have in4: "incoming ?c4 = (socks5_greeting [0x00], None) # (connect_ipv4 93 184 216 34 80, None) # []"
    and ind: "incoming ?cd = (socks5_greeting [0x00], None) # (connect_domain example_com 80, None) # []"
    and in6: "incoming ?c6 = (socks5_greeting [0x00], None) # (connect_ipv6 (replicate 16 0) 80, None) # []"
    by (simp_all add: client_conn_def)
  have name: "length example_com \<le> 249" by (simp add: example_com_def)
  have addr: "length (replicate 16 (0 :: byte)) = 16" by simp
  have acc: "accepts ?c6 = []" and out: "outgoing ?c6 = []" by (simp_all add: client_conn_def)
  have s4: "itoa (uint (93 :: byte)) @ ''.'' @ itoa (uint (184 :: byte)) @ ''.'' @
            itoa (uint (216 :: byte)) @ ''.'' @ itoa (uint (34 :: byte)) @ '':'' @ itoa (int 80)
              = ''93.184.216.34:80''"
    by code_simp
  have sd: "bytes_string example_com @ '':'' @ itoa (int 80) = ''example.com:80''"
    by code_simp
  from socks5_negotiation [OF open4 m, THEN conjunct1, THEN mp, OF in4] s4
  have r4: "fst (socks5Handshake ?c4) = Inr ''93.184.216.34:80''" by simp
  from socks5_negotiation [OF opend m, THEN conjunct2, THEN conjunct1, THEN mp, OF conjI [OF ind name]] sd
  have rd: "fst (socks5Handshake ?cd) = Inr ''example.com:80''" by simp
  note six = socks5_negotiation [where sshDial = "\<lambda>a. Inl ''unreachable''" and evs = "[]"
                                   and s = "newSession env_ok rule_d",
                                 OF open6 m, THEN conjunct2, THEN conjunct2, THEN mp,
                                 OF conjI [OF in6 addr]]
  from six have r6: "fst (socks5Handshake ?c6) = Inl ''unsupported address type''"
    by (rule conjunct1)
  from six [THEN conjunct2, THEN conjunct2, THEN conjunct2, THEN mp, OF acc] out
  have w6: "outgoing (h_accepted (handleSOCKS5Connection (\<lambda>a. Inl ''unreachable'') []
              (newSession env_ok rule_d) ?c6)) = [0x05, 0x00]"
    by simp
  from r4 rd r6 w6 show ?thesis by (intro conjI)
qed

text \<open>
  A CONNECT request for a domain name of 250 bytes is well formed (the length byte goes
  up to 255), but it has 257 bytes and cannot arrive in one read of the 256-byte
  buffer: the negotiator answers "incomplete domain name".
\<close>

theorem socks5_long_domain_counterexample:
  "length (connect_domain (replicate 250 0x61) 443) = 257 \<and>
   fst (socks5Handshake (client_conn [socks5_greeting [0x00], connect_domain (replicate 250 0x61) 443]))
     = Inl ''incomplete domain name''"
  by code_simp

section \<open>The stream pump\<close>

lemma conn_Write_outgoing:
  "conn_Write p c = ((nw, ew), c') \<Longrightarrow>
     outgoing c' = outgoing c @ take nw p \<and> nw \<le> length p \<and> incoming c' = incoming c"
  by (auto simp: conn_Write_def Let_def split: if_splits list.splits)

lemma conn_Read_outgoing:
  "conn_Read cap c = ((data, er), c') \<Longrightarrow> outgoing c' = outgoing c \<and> length data \<le> cap"
  by (auto simp: conn_Read_def split: if_splits list.splits)

text \<open>One pass of the loop: either nothing is written and the callback is not called, or
  some positive number of bytes is written and the callback is called once, with that number.\<close>

lemma copy_iter_accounting:
  assumes "copy_iter cb (dst, src, written, s) = (ret, dst', src', written', s')"
  shows "outgoing src' = outgoing src \<and>
         (\<exists>n. length (outgoing dst') = length (outgoing dst) + n \<and> n \<le> 32768 \<and>
              written' = written + of_nat n \<and>
              s' = (if 0 < n then cb (of_nat n) s else s))"
proof -
  obtain data er src1 where rd: "conn_Read (32 * 1024) src = ((data, er), src1)"
    by (cases "conn_Read (32 * 1024) src") auto
  note r = conn_Read_outgoing [OF rd]
  show ?thesis
  proof (cases "data = []")
    case True
    with assms rd r show ?thesis
      by (auto simp: copy_iter_def Let_def split: option.splits if_splits)
  next
    case False
    obtain nw ew dst1 where wr: "conn_Write data dst = ((nw, ew), dst1)"
      by (cases "conn_Write data dst") auto
    note w = conn_Write_outgoing [OF wr]
    from w r have n: "length (outgoing dst1) = length (outgoing dst) + nw" "nw \<le> 32768"
      by auto
    from assms rd wr False have
      "dst' = dst1" "src' = src1"
      "written' = (if nw > 0 then written + of_nat nw else written)"
      "s' = (if nw > 0 then cb (of_nat nw) s else s)"
      by (auto simp: copy_iter_def Let_def split: option.splits if_splits)
    with n r show ?thesis by (intro conjI exI [of _ nw]) auto
  qed
qed


text \<open>The loop as a whole: the callback has been called with a list of positive numbers
  whose sum is the number of bytes written to the destination.\<close>

lemma copyWithStats_accounting:
  "copyWithStats k cb (dst, src, written, s) = (ret, dst', src', written', s') \<Longrightarrow>
     \<exists>ns. (\<forall>n \<in> set ns. 0 < n) \<and> s' = foldl (\<lambda>s n. cb (of_nat n) s) s ns \<and>
          written' = written + of_nat (sum_list ns) \<and>
          length (outgoing dst') = length (outgoing dst) + sum_list ns"
proof (induction k arbitrary: dst src written s)
  case 0
  then show ?case by (intro exI [of _ "[]"]) simp
next
  case (Suc k)
  obtain r1 dst1 src1 written1 s1 where it:
    "copy_iter cb (dst, src, written, s) = (r1, dst1, src1, written1, s1)"
    by (metis prod_cases5)
  from copy_iter_accounting [OF it] obtain n where n:
    "length (outgoing dst1) = length (outgoing dst) + n" "written1 = written + of_nat n"
    "s1 = (if 0 < n then cb (of_nat n) s else s)"
    by blast
  let ?first = "if 0 < n then [n] else []"
  have first: "(\<forall>m \<in> set ?first. 0 < m)" "s1 = foldl (\<lambda>s n. cb (of_nat n) s) s ?first"
    "written1 = written + of_nat (sum_list ?first)"
    "length (outgoing dst1) = length (outgoing dst) + sum_list ?first"
    using n by auto
  show ?case
  proof (cases r1)
    case None
    with Suc.prems it have "copyWithStats k cb (dst1, src1, written1, s1) = (ret, dst', src', written', s')"
      by simp
    from Suc.IH [OF this] obtain ns where ns:
      "\<forall>n \<in> set ns. 0 < n" "s' = foldl (\<lambda>s n. cb (of_nat n) s) s1 ns"
      "written' = written1 + of_nat (sum_list ns)"
      "length (outgoing dst') = length (outgoing dst1) + sum_list ns"
      by blast
    with first show ?thesis
      by (intro exI [of _ "?first @ ns"]) (auto simp: algebra_simps)
  next
    case (Some r)
    with Suc.prems it have "dst' = dst1" "written' = written1" "s' = s1" by simp_all
    with first show ?thesis by (intro exI [of _ ?first]) auto
  qed
qed

lemma record_copy_error_bytes:
  "BytesSent (Stats (record_copy_error what written ret s)) = BytesSent (Stats s) \<and>
   BytesReceived (Stats (record_copy_error what written ret s)) = BytesReceived (Stats s)"
  by (simp add: record_copy_error_def IncrementErrors_def split: option.splits)

text \<open>What one event does to the two counters and the two streams.\<close>

lemma pump_step_accounting:
  "\<exists>a b. length (outgoing (conn2 (pump_step ev p))) = length (outgoing (conn2 p)) + a \<and>
         BytesSent (Stats (session (pump_step ev p))) = BytesSent (Stats (session p)) + of_nat a \<and>
         sent_written (pump_step ev p) = sent_written p + of_nat a \<and>
         length (outgoing (conn1 (pump_step ev p))) = length (outgoing (conn1 p)) + b \<and>
         BytesReceived (Stats (session (pump_step ev p))) = BytesReceived (Stats (session p)) + of_nat b \<and>
         received_written (pump_step ev p) = received_written p + of_nat b"
proof (cases ev)
  case (StepSent t)
  show ?thesis
  proof (cases "sent_done p")
    case True
    with StepSent show ?thesis by (intro exI [of _ 0]) simp
  next
    case False
    obtain ret dst src written s where it:
      "copy_iter (AddBytesSent t) (conn2 p, conn1 p, sent_written p, session p)
         = (ret, dst, src, written, s)"
      by (metis prod_cases5)
    from copy_iter_accounting [OF it] obtain a where a:
      "outgoing src = outgoing (conn1 p)"
      "length (outgoing dst) = length (outgoing (conn2 p)) + a"
      "written = sent_written p + of_nat a"
      "s = (if 0 < a then AddBytesSent t (of_nat a) (session p) else session p)"
      by blast
    from a(4) have "BytesSent (Stats s) = BytesSent (Stats (session p)) + of_nat a"
      "BytesReceived (Stats s) = BytesReceived (Stats (session p))"
      by (auto simp: AddBytesSent_def)
    with StepSent False it a show ?thesis
      by (intro exI [of _ a] exI [of _ 0]) (simp add: record_copy_error_bytes)
  qed
next
  case (StepReceived t)
  show ?thesis
  proof (cases "received_done p")
    case True
    with StepReceived show ?thesis by (intro exI [of _ 0]) simp
  next
    case False
    obtain ret dst src written s where it:
      "copy_iter (AddBytesReceived t) (conn1 p, conn2 p, received_written p, session p)
         = (ret, dst, src, written, s)"
      by (metis prod_cases5)
    from copy_iter_accounting [OF it] obtain b where b:
      "outgoing src = outgoing (conn2 p)"
      "length (outgoing dst) = length (outgoing (conn1 p)) + b"
      "written = received_written p + of_nat b"
      "s = (if 0 < b then AddBytesReceived t (of_nat b) (session p) else session p)"
      by blast
    from b(4) have "BytesReceived (Stats s) = BytesReceived (Stats (session p)) + of_nat b"
      "BytesSent (Stats s) = BytesSent (Stats (session p))"
      by (auto simp: AddBytesReceived_def)
    with StepReceived False it b show ?thesis
      by (intro exI [of _ 0] exI [of _ b]) (simp add: record_copy_error_bytes)
  qed
next
  case Deactivate
  then show ?thesis by (intro exI [of _ 0]) (simp add: SetActive_def)
qed

lemma pump_run_accounting:
  "\<exists>a b. length (outgoing (conn2 (pump_run evs p))) = length (outgoing (conn2 p)) + a \<and>
         BytesSent (Stats (session (pump_run evs p))) = BytesSent (Stats (session p)) + of_nat a \<and>
         sent_written (pump_run evs p) = sent_written p + of_nat a \<and>
         length (outgoing (conn1 (pump_run evs p))) = length (outgoing (conn1 p)) + b \<and>
         BytesReceived (Stats (session (pump_run evs p))) = BytesReceived (Stats (session p)) + of_nat b \<and>
         received_written (pump_run evs p) = received_written p + of_nat b"
proof (induction evs arbitrary: p)
  case Nil
  show ?case by (intro exI [of _ 0]) (simp add: pump_run_def)
next
  case (Cons ev evs)
  have run: "pump_run (ev # evs) p = pump_run evs (pump_step ev p)"
    by (simp add: pump_run_def)
  from pump_step_accounting [of ev p] obtain a1 b1 where s1:
    "length (outgoing (conn2 (pump_step ev p))) = length (outgoing (conn2 p)) + a1"
    "BytesSent (Stats (session (pump_step ev p))) = BytesSent (Stats (session p)) + of_nat a1"
    "sent_written (pump_step ev p) = sent_written p + of_nat a1"
    "length (outgoing (conn1 (pump_step ev p))) = length (outgoing (conn1 p)) + b1"
    "BytesReceived (Stats (session (pump_step ev p))) = BytesReceived (Stats (session p)) + of_nat b1"
    "received_written (pump_step ev p) = received_written p + of_nat b1"
    by blast
  from Cons.IH [of "pump_step ev p"] obtain a2 b2 where s2:
    "length (outgoing (conn2 (pump_run evs (pump_step ev p)))) = length (outgoing (conn2 (pump_step ev p))) + a2"
    "BytesSent (Stats (session (pump_run evs (pump_step ev p)))) = BytesSent (Stats (session (pump_step ev p))) + of_nat a2"
    "sent_written (pump_run evs (pump_step ev p)) = sent_written (pump_step ev p) + of_nat a2"
    "length (outgoing (conn1 (pump_run evs (pump_step ev p)))) = length (outgoing (conn1 (pump_step ev p))) + b2"
    "BytesReceived (Stats (session (pump_run evs (pump_step ev p)))) = BytesReceived (Stats (session (pump_step ev p))) + of_nat b2"
    "received_written (pump_run evs (pump_step ev p)) = received_written (pump_step ev p) + of_nat b2"
    by blast
  show ?case
    unfolding run s2 s1
    by (intro exI [of _ "a1 + a2"] exI [of _ "b1 + b2"]) (simp add: algebra_simps)
qed

text \<open>
  C5. However the two directions of a pump and a concurrent stop are interleaved, and
  whatever the two connections deliver, accept or refuse, at every moment \<open>BytesSent\<close>
  has grown by exactly the number of bytes written to \<open>conn2\<close> since the pump
  started, and \<open>BytesReceived\<close> by the number written to \<open>conn1\<close> (in 64-bit
  arithmetic, so the growth read as a number never exceeds the bytes written). For the
  copy loop with any callback: the callback is called only with positive numbers, and
  their sum is the number of bytes written to the destination.
\<close>

theorem recorded_bytes_are_written_bytes:
  "length (outgoing (conn2 p)) \<le> length (outgoing (conn2 (pump_run evs p))) \<and>
   BytesSent (Stats (session (pump_run evs p))) - BytesSent (Stats (session p))
     = of_nat (length (outgoing (conn2 (pump_run evs p))) - length (outgoing (conn2 p))) \<and>
   unat (BytesSent (Stats (session (pump_run evs p))) - BytesSent (Stats (session p)))
     \<le> length (outgoing (conn2 (pump_run evs p))) - length (outgoing (conn2 p)) \<and>
   length (outgoing (conn1 p)) \<le> length (outgoing (conn1 (pump_run evs p))) \<and>
   BytesReceived (Stats (session (pump_run evs p))) - BytesReceived (Stats (session p))
     = of_nat (length (outgoing (conn1 (pump_run evs p))) - length (outgoing (conn1 p))) \<and>
   unat (BytesReceived (Stats (session (pump_run evs p))) - BytesReceived (Stats (session p)))
     \<le> length (outgoing (conn1 (pump_run evs p))) - length (outgoing (conn1 p)) \<and>
   (copyWithStats k cb (dst, src, written, s) = (ret, dst', src', written', s') \<longrightarrow>
      length (outgoing dst) \<le> length (outgoing dst') \<and>
      (\<exists>ns. (\<forall>n \<in> set ns. 0 < n) \<and> s' = foldl (\<lambda>s n. cb (of_nat n) s) s ns \<and>
            sum_list ns = length (outgoing dst') - length (outgoing dst)))"
proof -
  from pump_run_accounting [of evs p] obtain a b where ab:
    "length (outgoing (conn2 (pump_run evs p))) = length (outgoing (conn2 p)) + a"
    "BytesSent (Stats (session (pump_run evs p))) = BytesSent (Stats (session p)) + of_nat a"
    "length (outgoing (conn1 (pump_run evs p))) = length (outgoing (conn1 p)) + b"
    "BytesReceived (Stats (session (pump_run evs p))) = BytesReceived (Stats (session p)) + of_nat b"
    by blast
  have le: "unat (of_nat n :: int64) \<le> n" for n
    by (simp add: unat_of_nat)
  have pump: "length (outgoing (conn2 p)) \<le> length (outgoing (conn2 (pump_run evs p)))"
    "BytesSent (Stats (session (pump_run evs p))) - BytesSent (Stats (session p))
       = of_nat (length (outgoing (conn2 (pump_run evs p))) - length (outgoing (conn2 p)))"
    "unat (BytesSent (Stats (session (pump_run evs p))) - BytesSent (Stats (session p)))
       \<le> length (outgoing (conn2 (pump_run evs p))) - length (outgoing (conn2 p))"
    "length (outgoing (conn1 p)) \<le> length (outgoing (conn1 (pump_run evs p)))"
    "BytesReceived (Stats (session (pump_run evs p))) - BytesReceived (Stats (session p))
       = of_nat (length (outgoing (conn1 (pump_run evs p))) - length (outgoing (conn1 p)))"
    "unat (BytesReceived (Stats (session (pump_run evs p))) - BytesReceived (Stats (session p)))
       \<le> length (outgoing (conn1 (pump_run evs p))) - length (outgoing (conn1 p))"
    unfolding ab by (simp_all add: le)
  have loop: "length (outgoing dst) \<le> length (outgoing dst') \<and>
      (\<exists>ns. (\<forall>n \<in> set ns. 0 < n) \<and> s' = foldl (\<lambda>s n. cb (of_nat n) s) s ns \<and>
            sum_list ns = length (outgoing dst') - length (outgoing dst))"
    if "copyWithStats k cb (dst, src, written, s) = (ret, dst', src', written', s')"
  proof -
    from copyWithStats_accounting [OF that] obtain ns where
      "\<forall>n \<in> set ns. 0 < n" "s' = foldl (\<lambda>s n. cb (of_nat n) s) s ns"
      "length (outgoing dst') = length (outgoing dst) + sum_list ns"
      by blast
    then show ?thesis by (intro conjI exI [of _ ns]) simp_all
  qed
  from pump loop show ?thesis by blast
qed

theorem recorded_bytes_are_written_bytes_witness:
  "outgoing (conn2 (pump_run events0 pump0)) = [0x01, 0x02] \<and>
   BytesSent (Stats (session (pump_run events0 pump0))) = 2 \<and>
   outgoing (conn1 (pump_run events0 pump0)) = [0x0A] \<and>
   BytesReceived (Stats (session (pump_run events0 pump0))) = 1 \<and>
   copyWithStats 1 (\<lambda>n log. log @ [n])
       (flaky_conn, client_conn [[0x01, 0x02, 0x03], [0x04, 0x05]], 0, [])
     = (Some (Some ''broken pipe''),
        flaky_conn\<lparr>accepts := [], outgoing := [0x01, 0x02]\<rparr>,
        client_conn [[0x04, 0x05]], 2, [2]) \<and>
   (\<exists>ns. (\<forall>n \<in> set ns. 0 < n) \<and> [2 :: int64] = foldl (\<lambda>log n. log @ [of_nat n]) [] ns \<and>
         sum_list ns = 2)"
proof -
  note defs = pump_run_def events0_def pump0_def new_pump_def flaky_conn_def client_conn_def
    copy_iter_def conn_Read_def conn_Write_def Let_def record_copy_error_def
  have out2: "outgoing (conn2 (pump_run events0 pump0)) = [0x01, 0x02]"
    and out1: "outgoing (conn1 (pump_run events0 pump0)) = [0x0A]"
    by (simp_all add: defs)
  have start: "outgoing (conn2 pump0) = []" "outgoing (conn1 pump0) = []"
    "BytesSent (Stats (session pump0)) = 0" "BytesReceived (Stats (session pump0)) = 0"
    by (simp_all add: pump0_def new_pump_def flaky_conn_def client_conn_def newSession_def
                      SetActive_def)
  have loop: "copyWithStats 1 (\<lambda>n log. log @ [n])
       (flaky_conn, client_conn [[0x01, 0x02, 0x03], [0x04, 0x05]], 0, [])
     = (Some (Some ''broken pipe''),
        flaky_conn\<lparr>accepts := [], outgoing := [0x01, 0x02]\<rparr>,
        client_conn [[0x04, 0x05]], 2, [2])"
    by (simp add: defs)
  note T = recorded_bytes_are_written_bytes
             [where p = pump0 and evs = events0 and k = 1 and cb = "\<lambda>n log. log @ [n]"
                and dst = flaky_conn and src = "client_conn [[0x01, 0x02, 0x03], [0x04, 0x05]]"
                and written = 0 and s = "[]" and ret = "Some (Some ''broken pipe'')"
                and dst' = "flaky_conn\<lparr>accepts := [], outgoing := [0x01, 0x02]\<rparr>"
                and src' = "client_conn [[0x04, 0x05]]" and written' = 2 and s' = "[2]"]
  from T have sent: "BytesSent (Stats (session (pump_run events0 pump0))) - BytesSent (Stats (session pump0))
     = of_nat (length (outgoing (conn2 (pump_run events0 pump0))) - length (outgoing (conn2 pump0)))"
    by (elim conjE)
  from T have received:
    "BytesReceived (Stats (session (pump_run events0 pump0))) - BytesReceived (Stats (session pump0))
     = of_nat (length (outgoing (conn1 (pump_run events0 pump0))) - length (outgoing (conn1 pump0)))"
    by (elim conjE)
  from T have imp: "copyWithStats 1 (\<lambda>n log. log @ [n])
       (flaky_conn, client_conn [[0x01, 0x02, 0x03], [0x04, 0x05]], 0, [])
     = (Some (Some ''broken pipe''),
        flaky_conn\<lparr>accepts := [], outgoing := [0x01, 0x02]\<rparr>,
        client_conn [[0x04, 0x05]], 2, [2]) \<longrightarrow>
      length (outgoing flaky_conn)
        \<le> length (outgoing (flaky_conn\<lparr>accepts := [], outgoing := [0x01, 0x02]\<rparr>)) \<and>
      (\<exists>ns. (\<forall>n \<in> set ns. 0 < n) \<and> [2 :: int64] = foldl (\<lambda>s n. s @ [of_nat n]) [] ns \<and>
            sum_list ns = length (outgoing (flaky_conn\<lparr>accepts := [], outgoing := [0x01, 0x02]\<rparr>))
                            - length (outgoing flaky_conn))"
    by (elim conjE)
  from imp [THEN mp, OF loop, THEN conjunct2] obtain ns where ns:
    "\<forall>n \<in> set ns. 0 < n" "[2 :: int64] = foldl (\<lambda>s n. s @ [of_nat n]) [] ns"
    "sum_list ns = length (outgoing (flaky_conn\<lparr>accepts := [], outgoing := [0x01, 0x02]\<rparr>))
                     - length (outgoing flaky_conn)"
    by blast
  from ns(3) have "sum_list ns = 2" by (simp add: flaky_conn_def)
  with ns(1,2) have ex: "\<exists>ns. (\<forall>n \<in> set ns. 0 < n) \<and>
         [2 :: int64] = foldl (\<lambda>log n. log @ [of_nat n]) [] ns \<and> sum_list ns = 2"
    by blast
  from sent out2 start have bs: "BytesSent (Stats (session (pump_run events0 pump0))) = 2" by simp
  from received out1 start have br: "BytesReceived (Stats (session (pump_run events0 pump0))) = 1"
    by simp
  from out2 bs out1 br loop ex show ?thesis by (intro conjI)
qed

section \<open>Statistics under concurrent handlers\<close>

lemma sint_add_of_nat:
  "sint (x + of_nat d :: int64) = signed_take_bit 63 (sint x + int d)"
proof -
  have "sint (x + of_nat d) = signed_take_bit 63 (sint x + sint (of_nat d :: int64))"
    by (simp add: sint_word_add)
  also have "sint (of_nat d :: int64) = signed_take_bit 63 (int d)"
    by (simp add: signed_of_nat)
  also have "sint x = signed_take_bit 63 (sint x)"
    using sint_ge [of x] sint_lt [of x] by (simp add: signed_take_bit_int_eq_self)
  finally show ?thesis by (simp only: signed_take_bit_add)
qed

lemma sint_add_of_nat_no_wrap:
  assumes "sint (x :: int64) + int d < 2 ^ 63"
  shows "sint (x + of_nat d) = sint x + int d"
proof -
  have "- (2 ^ 63) \<le> sint x + int d" using sint_ge [of x] by simp
  with assms show ?thesis by (simp add: sint_add_of_nat signed_take_bit_int_eq_self)
qed


lemma sint_of_nat_small:
  assumes "n < 2 ^ 63"
  shows "sint (of_nat n :: int64) = int n"
proof -
  have "sint (0 + of_nat n :: int64) = sint (0 :: int64) + int n"
    by (rule sint_add_of_nat_no_wrap) (use assms in simp)
  then show ?thesis by simp
qed

text \<open>What one step adds to the counters.\<close>

lemma apply_step_counters:
  "BytesReceived (Stats (apply_step a fs)) = BytesReceived (Stats fs) + of_nat (received_of a) \<and>
   BytesSent (Stats (apply_step a fs)) = BytesSent (Stats fs) + of_nat (sent_of a) \<and>
   ConnectionCount (Stats (apply_step a fs)) = ConnectionCount (Stats fs) + of_nat (connections_of a) \<and>
   ErrorCount (Stats (apply_step a fs)) = ErrorCount (Stats fs) + of_nat (errors_of a)"
  by (cases a)
     (simp_all add: AddBytesSent_def AddBytesReceived_def IncrementErrors_def
                    DecrementActiveConnections_def)

lemma trace_total_Cons: "trace_total f ((h, a) # tr) = f a + trace_total f tr"
  by (simp add: trace_total_def)

lemma run_trace_counters:
  "run_trace tr (ph, fs) = Some (ph', fs') \<Longrightarrow>
     BytesReceived (Stats fs') = BytesReceived (Stats fs) + of_nat (trace_total received_of tr) \<and>
     BytesSent (Stats fs') = BytesSent (Stats fs) + of_nat (trace_total sent_of tr) \<and>
     ConnectionCount (Stats fs') = ConnectionCount (Stats fs) + of_nat (trace_total connections_of tr) \<and>
     ErrorCount (Stats fs') = ErrorCount (Stats fs) + of_nat (trace_total errors_of tr)"
proof (induction tr arbitrary: ph fs)
  case Nil
  then show ?case by (simp add: trace_total_def)
next
  case (Cons ev tr)
  obtain h a where ev: "ev = (h, a)" by (cases ev)
  with Cons.prems obtain p where
    "run_trace tr (AList.update h p ph, apply_step a fs) = Some (ph', fs')"
    by (auto split: option.splits)
  from Cons.IH [OF this] apply_step_counters [of a fs] show ?case
    unfolding ev trace_total_Cons by (simp add: algebra_simps)
qed

text \<open>The number of handlers in their active phase, when one handler changes phase.\<close>

lemma active_handlers_update:
  "active_handlers (AList.update h p ph) + (if phase_of ph h = Active then 1 else 0)
     = active_handlers ph + (if p = Active then 1 else 0)"
  by (induction ph) (auto simp: active_handlers_def phase_of_def)

lemma step_active:
  assumes "next_phase (phase_of ph h) a = Some p"
    and "ActiveConnections (Stats fs) = of_nat (active_handlers ph)"
  shows "ActiveConnections (Stats (apply_step a fs)) = of_nat (active_handlers (AList.update h p ph))"
proof (cases a)
  case AddConnectionCount
  with assms active_handlers_update [of h p ph] show ?thesis by (auto split: if_splits)
next
  case AddActiveConnections
  with assms active_handlers_update [of h p ph] show ?thesis by (auto split: if_splits)
next
  case SubActiveConnections
  with assms have "phase_of ph h = Active" "p = Finished" by (auto split: if_splits)
  with active_handlers_update [of h p ph]
  have "active_handlers ph = active_handlers (AList.update h p ph) + 1" by simp
  with assms(2) SubActiveConnections show ?thesis
    by (simp add: DecrementActiveConnections_def)
next
  case (AddSent t n)
  with assms active_handlers_update [of h p ph] show ?thesis
    by (auto simp: AddBytesSent_def split: if_splits)
next
  case (AddReceived t n)
  with assms active_handlers_update [of h p ph] show ?thesis
    by (auto simp: AddBytesReceived_def split: if_splits)
next
  case (AddError msg)
  with assms active_handlers_update [of h p ph] show ?thesis
    by (auto simp: IncrementErrors_def split: if_splits)
qed

lemma run_trace_active:
  "run_trace tr (ph, fs) = Some (ph', fs') \<Longrightarrow>
   ActiveConnections (Stats fs) = of_nat (active_handlers ph) \<Longrightarrow>
   ActiveConnections (Stats fs') = of_nat (active_handlers ph')"
proof (induction tr arbitrary: ph fs)
  case Nil
  then show ?case by simp
next
  case (Cons ev tr)
  obtain h a where ev: "ev = (h, a)" by (cases ev)
  with Cons.prems(1) obtain p where p: "next_phase (phase_of ph h) a = Some p"
    and rest: "run_trace tr (AList.update h p ph, apply_step a fs) = Some (ph', fs')"
    by (auto split: option.splits)
  from Cons.IH [OF rest step_active [OF p Cons.prems(2)]] show ?case .
qed

lemma run_trace_distinct:
  "run_trace tr (ph, fs) = Some (ph', fs') \<Longrightarrow> distinct (map fst ph) \<Longrightarrow> distinct (map fst ph')"
proof (induction tr arbitrary: ph fs)
  case Nil
  then show ?case by simp
next
  case (Cons ev tr)
  obtain h a where ev: "ev = (h, a)" by (cases ev)
  with Cons.prems(1) obtain p where
    rest: "run_trace tr (AList.update h p ph, apply_step a fs) = Some (ph', fs')"
    by (auto split: option.splits)
  from Cons.IH [OF rest] Cons.prems(2) show ?case by (simp add: AList.distinct_update)
qed

text \<open>The handlers follow the order of steps: the total is counted once, and the active
  count is up by one exactly while the handler has not returned.\<close>

lemma pump_step_connections:
  "ConnectionCount (Stats (session (pump_step ev p))) = ConnectionCount (Stats (session p)) \<and>
   ActiveConnections (Stats (session (pump_step ev p))) = ActiveConnections (Stats (session p))"
proof (cases ev)
  case (StepSent t)
  show ?thesis
  proof (cases "sent_done p")
    case True
    with StepSent show ?thesis by simp
  next
    case False
    obtain ret dst src written s where it:
      "copy_iter (AddBytesSent t) (conn2 p, conn1 p, sent_written p, session p)
         = (ret, dst, src, written, s)"
      by (metis prod_cases5)
    from copy_iter_accounting [OF it] obtain a where
      "s = (if 0 < a then AddBytesSent t (of_nat a) (session p) else session p)"
      by blast
    then have "ConnectionCount (Stats s) = ConnectionCount (Stats (session p))"
      "ActiveConnections (Stats s) = ActiveConnections (Stats (session p))"
      by (auto simp: AddBytesSent_def)
    with StepSent False it show ?thesis
      by (simp add: record_copy_error_def IncrementErrors_def split: option.splits)
  qed
next
  case (StepReceived t)
  show ?thesis
  proof (cases "received_done p")
    case True
    with StepReceived show ?thesis by simp
  next
    case False
    obtain ret dst src written s where it:
      "copy_iter (AddBytesReceived t) (conn1 p, conn2 p, received_written p, session p)
         = (ret, dst, src, written, s)"
      by (metis prod_cases5)
    from copy_iter_accounting [OF it] obtain b where
      "s = (if 0 < b then AddBytesReceived t (of_nat b) (session p) else session p)"
      by blast
    then have "ConnectionCount (Stats s) = ConnectionCount (Stats (session p))"
      "ActiveConnections (Stats s) = ActiveConnections (Stats (session p))"
      by (auto simp: AddBytesReceived_def)
    with StepReceived False it show ?thesis
      by (simp add: record_copy_error_def IncrementErrors_def split: option.splits)
  qed
next
  case Deactivate
  then show ?thesis by (simp add: SetActive_def)
qed

lemma forwardData_connections:
  "forwardData evs p = (p', rest, returned) \<Longrightarrow>
     ConnectionCount (Stats (session p')) = ConnectionCount (Stats (session p)) \<and>
     ActiveConnections (Stats (session p')) = ActiveConnections (Stats (session p))"
proof (induction evs arbitrary: p)
  case Nil
  then show ?case by simp
next
  case (Cons ev evs)
  show ?case
  proof (cases "sent_done p \<or> received_done p")
    case True
    with Cons.prems show ?thesis by auto
  next
    case False
    with Cons.prems have "forwardData evs (pump_step ev p) = (p', rest, returned)" by simp
    from Cons.IH [OF this] pump_step_connections [of ev p] show ?thesis by simp
  qed
qed

lemma pump_and_cleanup_connections:
  "ConnectionCount (Stats (h_session (pump_and_cleanup evs s a d first))) = ConnectionCount (Stats s) \<and>
   ActiveConnections (Stats (h_session (pump_and_cleanup evs s a d first))) + 1
     = ActiveConnections (Stats s) + (if h_returned (pump_and_cleanup evs s a d first) then 0 else 1)"
proof -
  let ?p = "if first then new_pump s a d else new_pump s d a"
  obtain p' rest returned where f: "forwardData evs ?p = (p', rest, returned)"
    by (metis prod_cases3)
  have "session ?p = s" by (simp add: new_pump_def)
  with forwardData_connections [OF f] f show ?thesis
    by (simp add: pump_and_cleanup_def Let_def DecrementActiveConnections_def)
qed

lemma handlers_count_and_pair:
  fixes r :: handled
  assumes "r = handleLocalForwardConnection dial evs s0 c host port \<or>
           r = handleRemoteForwardConnection dial evs s0 c host port \<or>
           r = handleSOCKS5Connection dial evs s0 c"
  shows "ConnectionCount (Stats (h_session r)) = ConnectionCount (Stats s0) + 1 \<and>
         ActiveConnections (Stats (h_session r)) + 1
           = ActiveConnections (Stats s0) + 1 + (if h_returned r then 0 else 1)"
proof -
  have inc: "ConnectionCount (Stats (IncrementConnections s0)) = ConnectionCount (Stats s0) + 1"
    "ActiveConnections (Stats (IncrementConnections s0)) = ActiveConnections (Stats s0) + 1"
    by (simp_all add: IncrementConnections_def)
  note pc = pump_and_cleanup_connections [of evs "IncrementConnections s0"]
  from assms show ?thesis
  proof (elim disjE)
    assume "r = handleLocalForwardConnection dial evs s0 c host port"
    with inc pc show ?thesis
      by (auto simp: handleLocalForwardConnection_def Let_def IncrementErrors_def
                     DecrementActiveConnections_def split: sum.splits)
  next
    assume "r = handleRemoteForwardConnection dial evs s0 c host port"
    with inc pc show ?thesis
      by (auto simp: handleRemoteForwardConnection_def Let_def IncrementErrors_def
                     DecrementActiveConnections_def split: sum.splits)
  next
    assume "r = handleSOCKS5Connection dial evs s0 c"
    with inc pc show ?thesis
      by (auto simp: handleSOCKS5Connection_def Let_def IncrementErrors_def
                     DecrementActiveConnections_def split: sum.splits prod.splits)
  qed
qed

text \<open>
  C8. Along every sequence of atomic steps in which each handler keeps to the order the
  code gives it, each of \<open>BytesReceived\<close>, \<open>BytesSent\<close>, \<open>ConnectionCount\<close> and
  \<open>ErrorCount\<close> ends as it started plus what the steps added, in 64-bit
  arithmetic; so, read as a signed number, it has not decreased as long as that sum
  stays below \<open>2^63\<close>. \<open>ActiveConnections\<close>, when it starts as the number of
  handlers in their active phase (zero for a new session), stays that number, and so is
  not negative while fewer than \<open>2^63\<close> handlers are active.
\<close>

theorem statistics_under_interleaving:
  assumes "run_trace tr (ph, fs) = Some (ph', fs')"
  shows "BytesReceived (Stats fs') = BytesReceived (Stats fs) + of_nat (trace_total received_of tr) \<and>
         BytesSent (Stats fs') = BytesSent (Stats fs) + of_nat (trace_total sent_of tr) \<and>
         ConnectionCount (Stats fs') = ConnectionCount (Stats fs) + of_nat (trace_total connections_of tr) \<and>
         ErrorCount (Stats fs') = ErrorCount (Stats fs) + of_nat (trace_total errors_of tr) \<and>
         (sint (BytesReceived (Stats fs)) + int (trace_total received_of tr) < 2 ^ 63
            \<longrightarrow> sint (BytesReceived (Stats fs)) \<le> sint (BytesReceived (Stats fs'))) \<and>
         (sint (BytesSent (Stats fs)) + int (trace_total sent_of tr) < 2 ^ 63
            \<longrightarrow> sint (BytesSent (Stats fs)) \<le> sint (BytesSent (Stats fs'))) \<and>
         (sint (ConnectionCount (Stats fs)) + int (trace_total connections_of tr) < 2 ^ 63
            \<longrightarrow> sint (ConnectionCount (Stats fs)) \<le> sint (ConnectionCount (Stats fs'))) \<and>
         (sint (ErrorCount (Stats fs)) + int (trace_total errors_of tr) < 2 ^ 63
            \<longrightarrow> sint (ErrorCount (Stats fs)) \<le> sint (ErrorCount (Stats fs'))) \<and>
         (ActiveConnections (Stats fs) = of_nat (active_handlers ph)
            \<longrightarrow> ActiveConnections (Stats fs') = of_nat (active_handlers ph') \<and>
                (active_handlers ph' < 2 ^ 63 \<longrightarrow> 0 \<le> sint (ActiveConnections (Stats fs'))))"
proof -
  note c = run_trace_counters [OF assms]
  have mono: "sint x \<le> sint (x + of_nat d)" if "sint x + int d < 2 ^ 63" for x :: int64 and d
    using sint_add_of_nat_no_wrap [OF that] by simp
  have active: "ActiveConnections (Stats fs') = of_nat (active_handlers ph') \<and>
                (active_handlers ph' < 2 ^ 63 \<longrightarrow> 0 \<le> sint (ActiveConnections (Stats fs')))"
    if "ActiveConnections (Stats fs) = of_nat (active_handlers ph)"
  proof -
    from run_trace_active [OF assms that]
    have eq: "ActiveConnections (Stats fs') = of_nat (active_handlers ph')" .
    moreover have "0 \<le> sint (ActiveConnections (Stats fs'))" if "active_handlers ph' < 2 ^ 63"
      unfolding eq using sint_of_nat_small [OF that] by simp
    ultimately show ?thesis by blast
  qed
  from c have r: "BytesReceived (Stats fs') = BytesReceived (Stats fs) + of_nat (trace_total received_of tr)"
    and s: "BytesSent (Stats fs') = BytesSent (Stats fs) + of_nat (trace_total sent_of tr)"
    and n: "ConnectionCount (Stats fs') = ConnectionCount (Stats fs) + of_nat (trace_total connections_of tr)"
    and e: "ErrorCount (Stats fs') = ErrorCount (Stats fs) + of_nat (trace_total errors_of tr)"
    by simp_all
  show ?thesis
  proof (intro conjI impI)
    show "BytesReceived (Stats fs') = BytesReceived (Stats fs) + of_nat (trace_total received_of tr)"
      by (rule r)
    show "BytesSent (Stats fs') = BytesSent (Stats fs) + of_nat (trace_total sent_of tr)"
      by (rule s)
    show "ConnectionCount (Stats fs') = ConnectionCount (Stats fs) + of_nat (trace_total connections_of tr)"
      by (rule n)
    show "ErrorCount (Stats fs') = ErrorCount (Stats fs) + of_nat (trace_total errors_of tr)"
      by (rule e)
    show "sint (BytesReceived (Stats fs)) \<le> sint (BytesReceived (Stats fs'))"
      if "sint (BytesReceived (Stats fs)) + int (trace_total received_of tr) < 2 ^ 63"
      unfolding r using that by (rule mono)
    show "sint (BytesSent (Stats fs)) \<le> sint (BytesSent (Stats fs'))"
      if "sint (BytesSent (Stats fs)) + int (trace_total sent_of tr) < 2 ^ 63"
      unfolding s using that by (rule mono)
    show "sint (ConnectionCount (Stats fs)) \<le> sint (ConnectionCount (Stats fs'))"
      if "sint (ConnectionCount (Stats fs)) + int (trace_total connections_of tr) < 2 ^ 63"
      unfolding n using that by (rule mono)
    show "sint (ErrorCount (Stats fs)) \<le> sint (ErrorCount (Stats fs'))"
      if "sint (ErrorCount (Stats fs)) + int (trace_total errors_of tr) < 2 ^ 63"
      unfolding e using that by (rule mono)
    show "ActiveConnections (Stats fs') = of_nat (active_handlers ph')"
      if "ActiveConnections (Stats fs) = of_nat (active_handlers ph)"
      using active [OF that] by blast
    show "0 \<le> sint (ActiveConnections (Stats fs'))"
      if "ActiveConnections (Stats fs) = of_nat (active_handlers ph)"
        and "active_handlers ph' < 2 ^ 63"
      using active [OF that(1)] that(2) by blast
  qed
qed

theorem statistics_under_interleaving_witness:
  "run_trace trace0 ([], newSession env_ok rule_a)
     = Some ([(1, Finished), (2, Active), (0, Idle)],
             (newSession env_ok rule_a)
               \<lparr>Stats := \<lparr>BytesReceived = 10, BytesSent = 100, ConnectionCount = 2,
                           ActiveConnections = 1, StartTime = 100, LastActivity = 7, ErrorCount = 1,
                           LastError = ''Accept error: closed''\<rparr>\<rparr>) \<and>
   trace_total received_of trace0 = 10 \<and> trace_total sent_of trace0 = 100 \<and>
   trace_total connections_of trace0 = 2 \<and> trace_total errors_of trace0 = 1 \<and>
   active_handlers [(1, Finished), (2, Active), (0, Idle)] = 1 \<and>
   sint (BytesSent (Stats (newSession env_ok rule_a))) \<le> sint (100 :: int64) \<and>
   0 \<le> sint (1 :: int64)"
proof -
  let ?fs = "newSession env_ok rule_a"
  let ?fs' = "?fs\<lparr>Stats := \<lparr>BytesReceived = 10, BytesSent = 100, ConnectionCount = 2,
                           ActiveConnections = 1, StartTime = 100, LastActivity = 7, ErrorCount = 1,
                           LastError = ''Accept error: closed''\<rparr>\<rparr>"
  let ?ph' = "[(1 :: nat, Finished), (2, Active), (0, Idle)]"
  have run: "run_trace trace0 ([], ?fs) = Some (?ph', ?fs')"
    by (simp add: trace0_def newSession_def phase_of_def AddBytesSent_def AddBytesReceived_def
                  IncrementErrors_def DecrementActiveConnections_def env_ok_def)
  have totals: "trace_total received_of trace0 = 10" "trace_total sent_of trace0 = 100"
    "trace_total connections_of trace0 = 2" "trace_total errors_of trace0 = 1"
    by (simp_all add: trace0_def trace_total_def)
  have act: "active_handlers ?ph' = 1" by (simp add: active_handlers_def)
  have start: "ActiveConnections (Stats ?fs) = of_nat (active_handlers [])"
    by (simp add: newSession_def active_handlers_def)
  have room: "sint (BytesSent (Stats ?fs)) + int (trace_total sent_of trace0) < 2 ^ 63"
    by (simp add: totals newSession_def)
  have few: "active_handlers ?ph' < 2 ^ 63" by (simp add: active_handlers_def)
  note T = statistics_under_interleaving [OF run]
  from T have "sint (BytesSent (Stats ?fs)) + int (trace_total sent_of trace0) < 2 ^ 63
                 \<longrightarrow> sint (BytesSent (Stats ?fs)) \<le> sint (BytesSent (Stats ?fs'))"
    by (elim conjE)
  with room have sent: "sint (BytesSent (Stats ?fs)) \<le> sint (100 :: int64)" by simp
  from T have "ActiveConnections (Stats ?fs) = of_nat (active_handlers [])
                 \<longrightarrow> ActiveConnections (Stats ?fs') = of_nat (active_handlers ?ph') \<and>
                     (active_handlers ?ph' < 2 ^ 63 \<longrightarrow> 0 \<le> sint (ActiveConnections (Stats ?fs')))"
    by (elim conjE)
  with start few have "0 \<le> sint (1 :: int64)" by simp
  with run totals act sent show ?thesis by (intro conjI)
qed

text \<open>
  A session whose \<open>BytesSent\<close> stands at the largest 64-bit value: one more byte
  reported by a handler that keeps to the order makes the counter negative.
\<close>

theorem statistics_wrap_counterexample:
  "run_trace [(1, AddConnectionCount), (1, AddActiveConnections), (1, AddSent 1 1)] ([], session_full)
     = Some ([(1, Active)],
             AddBytesSent 1 1 (IncrementConnections session_full)) \<and>
   sint (BytesSent (Stats session_full)) = 9223372036854775807 \<and>
   sint (BytesSent (Stats (AddBytesSent 1 1 (IncrementConnections session_full))))
     = - 9223372036854775808"
  by (simp add: session_full_def newSession_def phase_of_def AddBytesSent_def
                IncrementConnections_def)



end
